theory Spec2Isabelle
  imports Main "HOL-Library.Multiset" "HOL-Library.Sublist" "HOL-Library.Word"
begin

section \<open>The file deduplicator of \<^verbatim>\<open>dedup.c++\<close>\<close>

text \<open>
  The program walks a directory, groups the regular files it finds by size and then by a
  digest of their content, and lists, deletes or hard-links every member of a group but
  the oldest. The embedding follows the source function by function. What the source
  leaves to the C++ library is a parameter of the model:
  \<^item> \<open>std::hash<std::string>\<close> is a function \<open>string \<Rightarrow> 64 word\<close>;
  \<^item> the order in which a \<open>std::unordered_map\<close> is iterated is a function from the keys
    in insertion order to the keys in iteration order;
  \<^item> \<open>std::sort\<close> is a function from a comparison and a list to a list, constrained only
    by what the standard promises of it (a sorted permutation; equal elements in any
    order); the sort of the GNU library is modelled as one such function.
  The filesystem is a value: the directory tree that the walk sees, and a table from paths
  to files and symbolic links that reads, removals and link creations go through.
\<close>

subsection \<open>Data\<close>

type_synonym path = string

text \<open>\<open>struct FileInfo\<close>; the field \<open>size\<close> is written \<open>size'\<close>.\<close>

record FileInfo =
  path :: path
  size' :: nat
  hash :: string

text \<open>The exceptions the program can meet: \<open>std::runtime_error\<close> (thrown by
  \<open>generate_file_hash\<close>) and \<open>fs::filesystem_error\<close> (thrown by the library, with the
  operation and the paths it concerns). \<open>front_of_empty\<close> stands for
  \<open>sorted_files.front()\<close> on an empty vector, which the C++ standard leaves undefined.\<close>

datatype error =
    runtime_error string
  | filesystem_error string "path list"
  | front_of_empty

text \<open>One constructor for each line the program prints.\<close>

datatype event =
    ErrorAccessing path
  | FilesystemErrorMsg error
  | ErrorProcessing path error
  | DuplicateGroup nat
  | HashLine string
  | Original path
  | Duplicate path
  | Deleted path
  | DeleteFailed error
  | CreatedHardlink path
  | HardlinkFailed error
  | Usage
  | InvalidDirectory path
  | ScanningDirectory path
  | FoundFiles nat
  | LookingForDuplicates
  | NoDuplicatesFound
  | FoundGroups nat
  | TopLevelError error

text \<open>The lines written to \<open>std::cerr\<close>; all others go to \<open>std::cout\<close>.\<close>

fun to_cerr :: "event \<Rightarrow> bool" where
  "to_cerr (ErrorAccessing _) = True"
| "to_cerr (FilesystemErrorMsg _) = True"
| "to_cerr (ErrorProcessing _ _) = True"
| "to_cerr (DeleteFailed _) = True"
| "to_cerr (HardlinkFailed _) = True"
| "to_cerr (InvalidDirectory _) = True"
| "to_cerr (TopLevelError _) = True"
| "to_cerr _ = False"

subsection \<open>The filesystem\<close>

text \<open>A file as the program can observe it: its bytes (\<open>None\<close> when it cannot be opened
  for reading) and its last-modification time (\<open>None\<close> when reading it fails).\<close>

record fs_file =
  content :: "string option"
  last_write :: "nat option"

text \<open>What a directory holds under a name: a file, or a symbolic link with the path it
  leads to.\<close>

datatype node = Regular fs_file | Symlink path

text \<open>The table of directory entries by path, and the paths at which a removal,
  respectively the creation of a link, is refused by the system. A hard link is a second
  path with the same file; the link count of a file is not recorded. The target of a
  symbolic link is stored as the path it leads to.\<close>

record filesystem =
  entries :: "path \<rightharpoonup> node"
  remove_denied :: "path \<Rightarrow> bool"
  link_denied :: "path \<Rightarrow> bool"

text \<open>The file a path leads to. Reading the content, the size or the modification time
  of a path follows symbolic links; the system gives up after 40 of them. A link whose
  target is missing leads to no file.\<close>

fun follow :: "nat \<Rightarrow> (path \<rightharpoonup> node) \<Rightarrow> path \<Rightarrow> fs_file option" where
  "follow 0 es p = None"
| "follow (Suc n) es p =
     (case es p of
        None \<Rightarrow> None
      | Some (Regular f) \<Rightarrow> Some f
      | Some (Symlink q) \<Rightarrow> follow n es q)"

definition resolve :: "filesystem \<Rightarrow> path \<Rightarrow> fs_file option" where
  "resolve fs p = follow 41 (entries fs) p"

definition last_write_time :: "filesystem \<Rightarrow> path \<Rightarrow> error + nat" where
  "last_write_time fs p =
     (case resolve fs p of
        None \<Rightarrow> Inl (filesystem_error ''last_write_time'' [p])
      | Some f \<Rightarrow>
          (case last_write f of
             None \<Rightarrow> Inl (filesystem_error ''last_write_time'' [p])
           | Some t \<Rightarrow> Inr t))"

text \<open>\<open>fs::remove\<close>: throws when the system refuses; removing a path that does not exist
  is not an error. The entry at the path is removed: of a symbolic link the link itself,
  not the file it leads to.\<close>

definition fs_remove :: "filesystem \<Rightarrow> path \<Rightarrow> error + filesystem" where
  "fs_remove fs p =
     (if remove_denied fs p then Inl (filesystem_error ''remove'' [p])
      else Inr (fs\<lparr>entries := (entries fs)(p := None)\<rparr>))"

text \<open>\<open>fs::create_hard_link target link\<close>: throws when the target does not exist, when
  the new name exists already, or when the system refuses; otherwise the new name
  denotes what the target denotes (\<open>link(2)\<close> does not follow a symbolic link at the
  target: the new name is then a second name of that link).\<close>

definition create_hard_link :: "filesystem \<Rightarrow> path \<Rightarrow> path \<Rightarrow> error + filesystem" where
  "create_hard_link fs target link =
     (case entries fs target of
        None \<Rightarrow> Inl (filesystem_error ''create_hard_link'' [target, link])
      | Some f \<Rightarrow>
          if entries fs link \<noteq> None \<or> link_denied fs link
          then Inl (filesystem_error ''create_hard_link'' [target, link])
          else Inr (fs\<lparr>entries := (entries fs)(link \<mapsto> f)\<rparr>))"

text \<open>Opening a file and reading all of it, as \<open>generate_file_hash\<close> does through
  \<open>std::ifstream\<close>.\<close>

definition read_file :: "filesystem \<Rightarrow> path \<Rightarrow> error + string" where
  "read_file fs p =
     (case resolve fs p of
        None \<Rightarrow> Inl (runtime_error (''Cannot open file: '' @ p))
      | Some f \<Rightarrow>
          (case content f of
             None \<Rightarrow> Inl (runtime_error (''Cannot open file: '' @ p))
           | Some c \<Rightarrow> Inr c))"

subsection \<open>\<open>std::to_string\<close> and \<open>generate_file_hash\<close>\<close>

definition digit_char :: "nat \<Rightarrow> char" where
  "digit_char d = ''0123456789'' ! d"

fun to_string :: "nat \<Rightarrow> string" where
  "to_string n =
     (if n < 10 then [digit_char n]
      else to_string (n div 10) @ [digit_char (n mod 10)])"

declare to_string.simps [simp del]

definition generate_file_hash ::
  "(string \<Rightarrow> 64 word) \<Rightarrow> filesystem \<Rightarrow> path \<Rightarrow> error + string" where
  "generate_file_hash H fs file_path =
     (case read_file fs file_path of
        Inl e \<Rightarrow> Inl e
      | Inr c \<Rightarrow> Inr (to_string (length c) @ ''_'' @ to_string (unat (H c))))"

subsection \<open>\<open>find_files\<close>\<close>

text \<open>The directory tree as \<open>fs::recursive_directory_iterator\<close> meets it. A regular file
  (\<open>is_regular_file\<close> follows symbolic links, so a link that leads to a regular file is
  one) carries the result of \<open>file_size\<close> (\<open>None\<close> when that call throws); \<open>StatusFailure\<close>
  is an entry whose type query \<open>is_regular_file\<close> throws; \<open>DeniedDirectory\<close> is a
  directory that cannot be opened; \<open>OtherEntry\<close> is any entry that is neither a regular
  file nor a directory. The children of a directory are listed in the order in which
  the iterator yields them.\<close>

datatype dir_entry =
    RegularFile path "nat option"
  | OtherEntry path
  | StatusFailure path
  | Directory path "dir_entry list"
  | DeniedDirectory path

text \<open>What the range-for loop receives from the iterator: the next entry, or an
  exception from the increment. The iterator yields a directory before its content, and
  is constructed without \<open>skip_permission_denied\<close>, so the increment that would enter a
  directory that cannot be opened throws.\<close>

datatype iter_step = Entry dir_entry | IncrementThrows error

fun visit :: "dir_entry \<Rightarrow> iter_step list" where
  "visit (Directory p cs) = Entry (Directory p cs) # concat (map visit cs)"
| "visit (DeniedDirectory p) =
     [Entry (DeniedDirectory p),
      IncrementThrows (filesystem_error ''recursive_directory_iterator'' [p])]"
| "visit (RegularFile p s) = [Entry (RegularFile p s)]"
| "visit (OtherEntry p) = [Entry (OtherEntry p)]"
| "visit (StatusFailure p) = [Entry (StatusFailure p)]"

fun directory_path :: "dir_entry \<Rightarrow> path" where
  "directory_path (RegularFile p _) = p"
| "directory_path (OtherEntry p) = p"
| "directory_path (StatusFailure p) = p"
| "directory_path (Directory p _) = p"
| "directory_path (DeniedDirectory p) = p"

text \<open>The iterator over the content of the root; its constructor throws when the root
  cannot be opened as a directory.\<close>

fun recursive_directory_iterator :: "dir_entry \<Rightarrow> iter_step list" where
  "recursive_directory_iterator (Directory p cs) = concat (map visit cs)"
| "recursive_directory_iterator d =
     [IncrementThrows (filesystem_error ''recursive_directory_iterator'' [directory_path d])]"

text \<open>The loop of \<open>find_files\<close>. The inner \<open>try\<close> covers \<open>file_size\<close> only and the loop
  goes on after its \<open>catch\<close>; an exception of the iterator or of \<open>is_regular_file\<close>
  leaves the loop for the outer \<open>catch\<close>, after which the files found so far are
  returned.\<close>

fun find_files_loop ::
  "iter_step list \<Rightarrow> FileInfo list \<times> event list \<Rightarrow> FileInfo list \<times> event list" where
  "find_files_loop [] (files, out) = (files, out)"
| "find_files_loop (IncrementThrows e # rest) (files, out) =
     (files, out @ [FilesystemErrorMsg e])"
| "find_files_loop (Entry (StatusFailure p) # rest) (files, out) =
     (files, out @ [FilesystemErrorMsg (filesystem_error ''status'' [p])])"
| "find_files_loop (Entry (RegularFile p (Some s)) # rest) (files, out) =
     find_files_loop rest (files @ [\<lparr>path = p, size' = s, hash = ''''\<rparr>], out)"
| "find_files_loop (Entry (RegularFile p None) # rest) (files, out) =
     find_files_loop rest (files, out @ [ErrorAccessing p])"
| "find_files_loop (Entry (OtherEntry p) # rest) (files, out) =
     find_files_loop rest (files, out)"
| "find_files_loop (Entry (Directory p cs) # rest) (files, out) =
     find_files_loop rest (files, out)"
| "find_files_loop (Entry (DeniedDirectory p) # rest) (files, out) =
     find_files_loop rest (files, out)"

definition find_files :: "dir_entry \<Rightarrow> event list \<Rightarrow> FileInfo list \<times> event list" where
  "find_files directory out = find_files_loop (recursive_directory_iterator directory) ([], out)"

subsection \<open>\<open>std::unordered_map\<close>\<close>

text \<open>An unordered map is the list of its key-value pairs, keys distinct, in the order
  of first insertion. \<open>m[k].push_back(v)\<close> (\<open>push_back_at\<close>) and \<open>m[k] = v\<close>
  (\<open>assign_at\<close>) create the key when it is absent.\<close>

fun push_back_at :: "'k \<Rightarrow> 'v \<Rightarrow> ('k \<times> 'v list) list \<Rightarrow> ('k \<times> 'v list) list" where
  "push_back_at k v [] = [(k, [v])]"
| "push_back_at k v ((k', vs) # m) =
     (if k' = k then (k', vs @ [v]) # m else (k', vs) # push_back_at k v m)"

fun assign_at :: "'k \<Rightarrow> 'v \<Rightarrow> ('k \<times> 'v) list \<Rightarrow> ('k \<times> 'v) list" where
  "assign_at k v [] = [(k, v)]"
| "assign_at k v ((k', v') # m) =
     (if k' = k then (k', v) # m else (k', v') # assign_at k v m)"

text \<open>A range-for loop over the map visits the pairs in the order \<open>ord\<close> makes of the
  keys.\<close>

definition iterate :: "('k list \<Rightarrow> 'k list) \<Rightarrow> ('k \<times> 'v) list \<Rightarrow> ('k \<times> 'v) list" where
  "iterate ord m =
     concat (map (\<lambda>k. case map_of m k of None \<Rightarrow> [] | Some v \<Rightarrow> [(k, v)]) (ord (map fst m)))"

text \<open>What an iteration order has to be: every key once.\<close>

definition iteration_order :: "('k list \<Rightarrow> 'k list) \<Rightarrow> bool" where
  "iteration_order ord \<longleftrightarrow> (\<forall>ks. distinct ks \<longrightarrow> distinct (ord ks) \<and> set (ord ks) = set ks)"

text \<open>The choices of the C++ implementation the program is built with.\<close>

record implementation =
  std_hash :: "string \<Rightarrow> 64 word"
  size_order :: "nat list \<Rightarrow> nat list"
  hash_order :: "string list \<Rightarrow> string list"
  std_sort :: "(path \<Rightarrow> path \<Rightarrow> bool) \<Rightarrow> path list \<Rightarrow> path list"

subsection \<open>\<open>find_duplicates\<close>\<close>

text \<open>First loop: \<open>size_groups[file.size].push_back(file)\<close>.\<close>

fun group_by_size ::
  "FileInfo list \<Rightarrow> (nat \<times> FileInfo list) list \<Rightarrow> (nat \<times> FileInfo list) list" where
  "group_by_size [] size_groups = size_groups"
| "group_by_size (f # files) size_groups =
     group_by_size files (push_back_at (size' f) f size_groups)"

text \<open>The loop over the files of one size (the variable \<open>group\<close> of the source is
  written \<open>bucket\<close>): a file whose digest cannot be computed is reported and left
  out.\<close>

fun hash_group ::
  "(string \<Rightarrow> 64 word) \<Rightarrow> filesystem \<Rightarrow> nat \<Rightarrow> FileInfo list \<Rightarrow>
   (string \<times> FileInfo list) list \<times> event list \<Rightarrow> (string \<times> FileInfo list) list \<times> event list" where
  "hash_group H fs sz [] (hash_groups, out) = (hash_groups, out)"
| "hash_group H fs sz (f # bucket) (hash_groups, out) =
     (case generate_file_hash H fs (path f) of
        Inr h \<Rightarrow>
          hash_group H fs sz bucket
            (push_back_at h \<lparr>path = path f, size' = sz, hash = h\<rparr> hash_groups, out)
      | Inl e \<Rightarrow>
          hash_group H fs sz bucket (hash_groups, out @ [ErrorProcessing (path f) e]))"

text \<open>The loop over the digest groups of one size: \<open>duplicates[hash] = files\<close> for the
  groups of more than one file.\<close>

fun emit_groups ::
  "(string \<times> FileInfo list) list \<Rightarrow> (string \<times> FileInfo list) list \<Rightarrow>
   (string \<times> FileInfo list) list" where
  "emit_groups [] duplicates = duplicates"
| "emit_groups ((h, files) # hash_groups) duplicates =
     emit_groups hash_groups
       (if length files > 1 then assign_at h files duplicates else duplicates)"

text \<open>The loop over the size groups.\<close>

fun scan_size_groups ::
  "implementation \<Rightarrow> filesystem \<Rightarrow> (nat \<times> FileInfo list) list \<Rightarrow>
   (string \<times> FileInfo list) list \<times> event list \<Rightarrow> (string \<times> FileInfo list) list \<times> event list" where
  "scan_size_groups impl fs [] (duplicates, out) = (duplicates, out)"
| "scan_size_groups impl fs ((sz, bucket) # size_groups) (duplicates, out) =
     (if length bucket > 1 then
        (case hash_group (std_hash impl) fs sz bucket ([], out) of
           (hash_groups, out') \<Rightarrow>
             scan_size_groups impl fs size_groups
               (emit_groups (iterate (hash_order impl) hash_groups) duplicates, out'))
      else scan_size_groups impl fs size_groups (duplicates, out))"

definition find_duplicates ::
  "implementation \<Rightarrow> filesystem \<Rightarrow> FileInfo list \<Rightarrow> event list \<Rightarrow>
   (string \<times> FileInfo list) list \<times> event list" where
  "find_duplicates impl fs files out =
     scan_size_groups impl fs (iterate (size_order impl) (group_by_size files [])) ([], out)"

subsection \<open>\<open>handle_duplicates\<close>\<close>

text \<open>The call of \<open>std::sort\<close> with the comparison
  \<open>last_write_time(a) < last_write_time(b)\<close>. The comparison reads both times at each
  call, and sorting two or more elements compares each of them at least once; so the
  call throws exactly when the range has two or more elements and the time of one of
  them cannot be read. Which of several failures is met first depends on the library;
  the model reports the first in the order of the range. When every time can be read
  the result is what the implementation's \<open>std_sort\<close> makes of the range.\<close>

definition mtime :: "filesystem \<Rightarrow> path \<Rightarrow> nat" where
  "mtime fs p = (case last_write_time fs p of Inr t \<Rightarrow> t | Inl _ \<Rightarrow> 0)"

fun first_failure :: "filesystem \<Rightarrow> path list \<Rightarrow> error option" where
  "first_failure fs [] = None"
| "first_failure fs (p # ps) =
     (case last_write_time fs p of Inl e \<Rightarrow> Some e | Inr _ \<Rightarrow> first_failure fs ps)"

definition sort_by_last_write_time ::
  "implementation \<Rightarrow> filesystem \<Rightarrow> path list \<Rightarrow> error + path list" where
  "sort_by_last_write_time impl fs ps =
     (if length ps < 2 then Inr ps
      else case first_failure fs ps of
             Some e \<Rightarrow> Inl e
           | None \<Rightarrow> Inr (std_sort impl (\<lambda>a b. mtime fs a < mtime fs b) ps))"

text \<open>What \<open>std::sort\<close> promises for such a comparison: a permutation of the range in
  which no element is followed by a strictly smaller one.\<close>

definition sort_contract :: "((path \<Rightarrow> path \<Rightarrow> bool) \<Rightarrow> path list \<Rightarrow> path list) \<Rightarrow> bool" where
  "sort_contract srt \<longleftrightarrow>
     (\<forall>(key :: path \<Rightarrow> nat) xs.
        mset (srt (\<lambda>a b. key a < key b) xs) = mset xs \<and>
        sorted (map key (srt (\<lambda>a b. key a < key b) xs)))"

text \<open>The body of the loop over \<open>sorted_files.begin() + 1 .. end\<close>.\<close>

definition process_duplicate ::
  "string \<Rightarrow> path \<Rightarrow> path \<Rightarrow> filesystem \<times> event list \<Rightarrow> filesystem \<times> event list" where
  "process_duplicate action original p = (\<lambda>(fs, out).
     if action = ''--delete'' then
       (case fs_remove fs p of
          Inr fs' \<Rightarrow> (fs', out @ [Duplicate p, Deleted p])
        | Inl e \<Rightarrow> (fs, out @ [Duplicate p, DeleteFailed e]))
     else if action = ''--hardlink'' then
       (case fs_remove fs p of
          Inl e \<Rightarrow> (fs, out @ [Duplicate p, HardlinkFailed e])
        | Inr fs' \<Rightarrow>
            (case create_hard_link fs' original p of
               Inl e \<Rightarrow> (fs', out @ [Duplicate p, HardlinkFailed e])
             | Inr fs'' \<Rightarrow> (fs'', out @ [Duplicate p, CreatedHardlink p])))
     else (fs, out @ [Duplicate p]))"

fun process_duplicates ::
  "string \<Rightarrow> path \<Rightarrow> path list \<Rightarrow> filesystem \<times> event list \<Rightarrow> filesystem \<times> event list" where
  "process_duplicates action original [] st = st"
| "process_duplicates action original (p # ps) st =
     process_duplicates action original ps (process_duplicate action original p st)"

text \<open>The body of the loop over the groups. The first component of the result is the
  exception that leaves \<open>handle_duplicates\<close>, if any.\<close>

definition handle_group ::
  "implementation \<Rightarrow> string \<Rightarrow> string \<times> FileInfo list \<Rightarrow> filesystem \<times> event list \<Rightarrow>
   error option \<times> filesystem \<times> event list" where
  "handle_group impl action g = (\<lambda>(fs, out).
     case g of (h, files) \<Rightarrow>
       (case sort_by_last_write_time impl fs (map path files) of
          Inl e \<Rightarrow> (Some e, fs, out @ [DuplicateGroup (length files), HashLine h])
        | Inr [] \<Rightarrow> (Some front_of_empty, fs, out @ [DuplicateGroup (length files), HashLine h])
        | Inr (original # rest) \<Rightarrow>
            (case process_duplicates action original rest
                    (fs, out @ [DuplicateGroup (length files), HashLine h, Original original]) of
               (fs', out') \<Rightarrow> (None, fs', out'))))"

fun handle_groups ::
  "implementation \<Rightarrow> string \<Rightarrow> (string \<times> FileInfo list) list \<Rightarrow> filesystem \<times> event list \<Rightarrow>
   error option \<times> filesystem \<times> event list" where
  "handle_groups impl action [] (fs, out) = (None, fs, out)"
| "handle_groups impl action (g # gs) (fs, out) =
     (case handle_group impl action g (fs, out) of
        (Some e, fs', out') \<Rightarrow> (Some e, fs', out')
      | (None, fs', out') \<Rightarrow> handle_groups impl action gs (fs', out'))"

definition handle_duplicates ::
  "implementation \<Rightarrow> (string \<times> FileInfo list) list \<Rightarrow> string \<Rightarrow> filesystem \<times> event list \<Rightarrow>
   error option \<times> filesystem \<times> event list" where
  "handle_duplicates impl duplicates action st =
     handle_groups impl action (iterate (hash_order impl) duplicates) st"

subsection \<open>\<open>main\<close>\<close>

text \<open>What \<open>fs::exists\<close> and \<open>fs::is_directory\<close> find at the path given on the command
  line: nothing, an entry, or an error of the status query itself, which both calls
  throw. They are called outside the \<open>try\<close> block of \<open>main\<close>, so that exception
  terminates the program: \<open>std::terminate\<close> aborts it, and \<open>main\<close> returns no status.\<close>

datatype root_status = NotFound | Found dir_entry | StatusError

datatype exit_status = Exit nat | Terminated

fun is_directory :: "dir_entry \<Rightarrow> bool" where
  "is_directory (Directory _ _) = True"
| "is_directory (DeniedDirectory _) = True"
| "is_directory _ = False"

text \<open>The body of the \<open>try\<close> block of \<open>main\<close>. The first component of the result is the
  exception that reaches the \<open>catch\<close> of \<open>main\<close>, if any; \<open>find_files\<close> and
  \<open>find_duplicates\<close> catch their own.\<close>

definition main_try ::
  "implementation \<Rightarrow> path \<Rightarrow> string \<Rightarrow> dir_entry \<Rightarrow> filesystem \<Rightarrow>
   error option \<times> filesystem \<times> event list" where
  "main_try impl directory action d fs =
     (case find_files d [ScanningDirectory directory] of
        (files, out1) \<Rightarrow>
          (case find_duplicates impl fs files
                  (out1 @ [FoundFiles (length files), LookingForDuplicates]) of
             (duplicates, out2) \<Rightarrow>
               if duplicates = [] then (None, fs, out2 @ [NoDuplicatesFound])
               else handle_duplicates impl duplicates action
                      (fs, out2 @ [FoundGroups (length duplicates)])))"

text \<open>\<open>argv\<close> includes the program name, so \<open>argc = length argv\<close>.\<close>

definition main ::
  "implementation \<Rightarrow> string list \<Rightarrow> root_status \<Rightarrow> filesystem \<Rightarrow>
   exit_status \<times> filesystem \<times> event list" where
  "main impl argv root fs =
     (if length argv < 2 then (Exit 1, fs, [Usage])
      else
        let directory = argv ! 1;
            action = (if length argv \<ge> 3 then argv ! 2 else ''--list'')
        in case root of
             StatusError \<Rightarrow> (Terminated, fs, [])
           | NotFound \<Rightarrow> (Exit 1, fs, [InvalidDirectory directory])
           | Found d \<Rightarrow>
               if \<not> is_directory d then (Exit 1, fs, [InvalidDirectory directory])
               else
                 (case main_try impl directory action d fs of
                    (None, fs', out) \<Rightarrow> (Exit 0, fs', out)
                  | (Some e, fs', out) \<Rightarrow> (Exit 1, fs', out @ [TopLevelError e])))"

subsection \<open>A stable sort\<close>

text \<open>An insertion sort within what \<open>std::sort\<close> promises: \<open>insert_sorted\<close> puts an
  element before the first one that is not smaller, and the elements are inserted from
  the last to the first, so equal elements keep their order.\<close>

fun insert_sorted :: "('a \<Rightarrow> 'a \<Rightarrow> bool) \<Rightarrow> 'a \<Rightarrow> 'a list \<Rightarrow> 'a list" where
  "insert_sorted lt x [] = [x]"
| "insert_sorted lt x (y # ys) = (if lt y x then y # insert_sorted lt x ys else x # y # ys)"

definition stable_sort :: "('a \<Rightarrow> 'a \<Rightarrow> bool) \<Rightarrow> 'a list \<Rightarrow> 'a list" where
  "stable_sort lt xs = foldr (insert_sorted lt) xs []"

subsection \<open>\<open>std::sort\<close> as the GNU C++ library has it\<close>

text \<open>The introsort of libstdc++: quicksort with the median of three as the pivot down
  to ranges of 16 elements, heap sort when the recursion gets too deep, and one
  insertion sort over the whole range at the end. On 16 elements or fewer it is the
  insertion sort alone, which keeps equal elements in their order.\<close>

text \<open>The range \<open>[first, last)\<close> of a vector is a list with two positions in it. Names of
  the library that are constants of HOL are written \<open>cmp\<close> (for \<open>comp\<close>), \<open>last'\<close>,
  \<open>cut'\<close> and \<open>nxt\<close> (for \<open>next\<close>).\<close>

definition iter_swap :: "nat \<Rightarrow> nat \<Rightarrow> 'a list \<Rightarrow> 'a list" where
  "iter_swap i j xs = xs[i := xs ! j, j := xs ! i]"

text \<open>\<open>std::__lg\<close>: the position of the highest bit set.\<close>

fun lg :: "nat \<Rightarrow> nat" where
  "lg n = (if n < 2 then 0 else Suc (lg (n div 2)))"

declare lg.simps [simp del]

text \<open>The heap functions of \<^verbatim>\<open>bits/stl_heap.h\<close>, on the range that begins at \<open>first\<close>;
  \<open>adjust_heap_loop\<close> is the \<open>while\<close> loop of \<open>__adjust_heap\<close>. The lengths are signed in
  the library; \<open>__adjust_heap\<close> is called with a length of at least 1.\<close>

function push_heap ::
  "('a \<Rightarrow> 'a \<Rightarrow> bool) \<Rightarrow> nat \<Rightarrow> nat \<Rightarrow> nat \<Rightarrow> 'a \<Rightarrow> 'a list \<Rightarrow> 'a list" where
  "push_heap cmp first holeIndex topIndex val xs =
     (if holeIndex > topIndex \<and> cmp (xs ! (first + (holeIndex - 1) div 2)) val
      then push_heap cmp first ((holeIndex - 1) div 2) topIndex val
             (xs[first + holeIndex := xs ! (first + (holeIndex - 1) div 2)])
      else xs[first + holeIndex := val])"
  by pat_completeness auto
termination
  by (relation "measure (\<lambda>(cmp, first, holeIndex, topIndex, val, xs). holeIndex)") auto

declare push_heap.simps [simp del]

function adjust_heap_loop ::
  "('a \<Rightarrow> 'a \<Rightarrow> bool) \<Rightarrow> nat \<Rightarrow> nat \<Rightarrow> nat \<Rightarrow> nat \<Rightarrow> 'a list \<Rightarrow> nat \<times> nat \<times> 'a list" where
  "adjust_heap_loop cmp first len holeIndex secondChild xs =
     (if secondChild < (len - 1) div 2 then
        (if cmp (xs ! (first + 2 * (secondChild + 1))) (xs ! (first + (2 * (secondChild + 1) - 1)))
         then adjust_heap_loop cmp first len
                (2 * (secondChild + 1) - 1) (2 * (secondChild + 1) - 1)
                (xs[first + holeIndex := xs ! (first + (2 * (secondChild + 1) - 1))])
         else adjust_heap_loop cmp first len
                (2 * (secondChild + 1)) (2 * (secondChild + 1))
                (xs[first + holeIndex := xs ! (first + 2 * (secondChild + 1))]))
      else (holeIndex, secondChild, xs))"
  by pat_completeness auto
termination
  by (relation "measure (\<lambda>(cmp, first, len, holeIndex, secondChild, xs).
                  (len - 1) div 2 - secondChild)") auto

declare adjust_heap_loop.simps [simp del]

definition adjust_heap ::
  "('a \<Rightarrow> 'a \<Rightarrow> bool) \<Rightarrow> nat \<Rightarrow> nat \<Rightarrow> nat \<Rightarrow> 'a \<Rightarrow> 'a list \<Rightarrow> 'a list" where
  "adjust_heap cmp first holeIndex len val xs =
     (case adjust_heap_loop cmp first len holeIndex holeIndex xs of
        (hole, secondChild, ys) \<Rightarrow>
          if 2 \<le> len \<and> len mod 2 = 0 \<and> secondChild = (len - 2) div 2
          then push_heap cmp first (2 * (secondChild + 1) - 1) holeIndex val
                 (ys[first + hole := ys ! (first + (2 * (secondChild + 1) - 1))])
          else push_heap cmp first hole holeIndex val ys)"

fun make_heap_loop ::
  "('a \<Rightarrow> 'a \<Rightarrow> bool) \<Rightarrow> nat \<Rightarrow> nat \<Rightarrow> nat \<Rightarrow> 'a list \<Rightarrow> 'a list" where
  "make_heap_loop cmp first len 0 xs = adjust_heap cmp first 0 len (xs ! first) xs"
| "make_heap_loop cmp first len (Suc parent) xs =
     make_heap_loop cmp first len parent
       (adjust_heap cmp first (Suc parent) len (xs ! (first + Suc parent)) xs)"

definition make_heap :: "('a \<Rightarrow> 'a \<Rightarrow> bool) \<Rightarrow> nat \<Rightarrow> nat \<Rightarrow> 'a list \<Rightarrow> 'a list" where
  "make_heap cmp first last' xs =
     (if last' - first < 2 then xs
      else make_heap_loop cmp first (last' - first) ((last' - first - 2) div 2) xs)"

definition pop_heap :: "('a \<Rightarrow> 'a \<Rightarrow> bool) \<Rightarrow> nat \<Rightarrow> nat \<Rightarrow> nat \<Rightarrow> 'a list \<Rightarrow> 'a list" where
  "pop_heap cmp first last' result xs =
     adjust_heap cmp first 0 (last' - first) (xs ! result) (xs[result := xs ! first])"

function sort_heap :: "('a \<Rightarrow> 'a \<Rightarrow> bool) \<Rightarrow> nat \<Rightarrow> nat \<Rightarrow> 'a list \<Rightarrow> 'a list" where
  "sort_heap cmp first last' xs =
     (if last' - first > 1
      then sort_heap cmp first (last' - 1) (pop_heap cmp first (last' - 1) (last' - 1) xs)
      else xs)"
  by pat_completeness auto
termination
  by (relation "measure (\<lambda>(cmp, first, last', xs). last' - first)") auto

declare sort_heap.simps [simp del]

definition heap_select ::
  "('a \<Rightarrow> 'a \<Rightarrow> bool) \<Rightarrow> nat \<Rightarrow> nat \<Rightarrow> nat \<Rightarrow> 'a list \<Rightarrow> 'a list" where
  "heap_select cmp first middle last' xs =
     fold (\<lambda>i ys. if cmp (ys ! i) (ys ! first) then pop_heap cmp first middle i ys else ys)
       [middle..<last'] (make_heap cmp first middle xs)"

definition partial_sort ::
  "('a \<Rightarrow> 'a \<Rightarrow> bool) \<Rightarrow> nat \<Rightarrow> nat \<Rightarrow> nat \<Rightarrow> 'a list \<Rightarrow> 'a list" where
  "partial_sort cmp first middle last' xs =
     sort_heap cmp first middle (heap_select cmp first middle last' xs)"

text \<open>The partition of \<^verbatim>\<open>bits/stl_algo.h\<close>. The two inner loops of
  \<open>__unguarded_partition\<close> are \<open>scan_up\<close> (\<open>while (comp(first, pivot)) ++first\<close>: over the
  elements from \<open>first\<close> on that are smaller than the pivot) and \<open>scan_down\<close>
  (\<open>while (comp(pivot, last)) --last\<close>). The library does not guard them; here they
  stop at the ends of the list.\<close>

definition move_median_to_first ::
  "('a \<Rightarrow> 'a \<Rightarrow> bool) \<Rightarrow> nat \<Rightarrow> nat \<Rightarrow> nat \<Rightarrow> nat \<Rightarrow> 'a list \<Rightarrow> 'a list" where
  "move_median_to_first cmp result a b c xs =
     (if cmp (xs ! a) (xs ! b) then
        (if cmp (xs ! b) (xs ! c) then iter_swap result b xs
         else if cmp (xs ! a) (xs ! c) then iter_swap result c xs
         else iter_swap result a xs)
      else if cmp (xs ! a) (xs ! c) then iter_swap result a xs
      else if cmp (xs ! b) (xs ! c) then iter_swap result c xs
      else iter_swap result b xs)"

fun scan_down :: "('a \<Rightarrow> 'a \<Rightarrow> bool) \<Rightarrow> 'a list \<Rightarrow> nat \<Rightarrow> nat \<Rightarrow> nat" where
  "scan_down cmp xs pivot 0 = 0"
| "scan_down cmp xs pivot (Suc last') =
     (if cmp (xs ! pivot) (xs ! Suc last') then scan_down cmp xs pivot last' else Suc last')"

definition scan_up :: "('a \<Rightarrow> 'a \<Rightarrow> bool) \<Rightarrow> 'a list \<Rightarrow> nat \<Rightarrow> nat \<Rightarrow> nat" where
  "scan_up cmp xs pivot first =
     first + length (takeWhile (\<lambda>x. cmp x (xs ! pivot)) (drop first xs))"

function unguarded_partition ::
  "('a \<Rightarrow> 'a \<Rightarrow> bool) \<Rightarrow> nat \<Rightarrow> nat \<Rightarrow> nat \<Rightarrow> 'a list \<Rightarrow> nat \<times> 'a list" where
  "unguarded_partition cmp first last' pivot xs =
     (if scan_up cmp xs pivot first < scan_down cmp xs pivot (last' - 1)
      then unguarded_partition cmp
             (scan_up cmp xs pivot first + 1) (scan_down cmp xs pivot (last' - 1)) pivot
             (iter_swap (scan_up cmp xs pivot first) (scan_down cmp xs pivot (last' - 1)) xs)
      else (scan_up cmp xs pivot first, xs))"
  by pat_completeness auto
termination
proof (relation "measure (\<lambda>(cmp, first, last', pivot, xs). last' - first)")
  show "wf (measure (\<lambda>(cmp, first, last', pivot, xs). last' - first))" by simp
next
  fix cmp :: "'a \<Rightarrow> 'a \<Rightarrow> bool" and first last' pivot :: nat and xs :: "'a list"
  assume less: "scan_up cmp xs pivot first < scan_down cmp xs pivot (last' - 1)"
  have down: "scan_down cmp xs pivot j \<le> j" for j by (induction j) auto
  have up: "first \<le> scan_up cmp xs pivot first" by (simp add: scan_up_def)
  from less up down[of "last' - 1"]
  show "((cmp, scan_up cmp xs pivot first + 1, scan_down cmp xs pivot (last' - 1), pivot,
          iter_swap (scan_up cmp xs pivot first) (scan_down cmp xs pivot (last' - 1)) xs),
         (cmp, first, last', pivot, xs))
        \<in> measure (\<lambda>(cmp, first, last', pivot, xs). last' - first)"
    by simp
qed

declare unguarded_partition.simps [simp del]

definition unguarded_partition_pivot ::
  "('a \<Rightarrow> 'a \<Rightarrow> bool) \<Rightarrow> nat \<Rightarrow> nat \<Rightarrow> 'a list \<Rightarrow> nat \<times> 'a list" where
  "unguarded_partition_pivot cmp first last' xs =
     unguarded_partition cmp (first + 1) last' first
       (move_median_to_first cmp first (first + 1) (first + (last' - first) div 2) (last' - 1) xs)"

text \<open>\<open>__introsort_loop\<close>: ranges of more than 16 elements are partitioned, the right
  part by a recursive call and the left part by the next turn of the loop, until the
  depth limit is used up, when the range is sorted as a heap.\<close>

fun introsort_loop ::
  "('a \<Rightarrow> 'a \<Rightarrow> bool) \<Rightarrow> nat \<Rightarrow> nat \<Rightarrow> nat \<Rightarrow> 'a list \<Rightarrow> 'a list" where
  "introsort_loop cmp first last' 0 xs =
     (if last' - first > 16 then partial_sort cmp first last' last' xs else xs)"
| "introsort_loop cmp first last' (Suc depth_limit) xs =
     (if last' - first > 16 then
        (case unguarded_partition_pivot cmp first last' xs of
           (cut', ys) \<Rightarrow>
             introsort_loop cmp first cut' depth_limit
               (introsort_loop cmp cut' last' depth_limit ys))
      else xs)"

text \<open>The insertion sorts. \<open>__insertion_sort\<close> moves an element that is smaller than the
  first one to the front, by \<open>move_backward\<close>, and inserts any other from the back.\<close>

fun unguarded_linear_insert ::
  "('a \<Rightarrow> 'a \<Rightarrow> bool) \<Rightarrow> 'a \<Rightarrow> nat \<Rightarrow> 'a list \<Rightarrow> 'a list" where
  "unguarded_linear_insert cmp val 0 xs = xs[0 := val]"
| "unguarded_linear_insert cmp val (Suc nxt) xs =
     (if cmp val (xs ! nxt)
      then unguarded_linear_insert cmp val nxt (xs[Suc nxt := xs ! nxt])
      else xs[Suc nxt := val])"

definition insertion_sort ::
  "('a \<Rightarrow> 'a \<Rightarrow> bool) \<Rightarrow> nat \<Rightarrow> nat \<Rightarrow> 'a list \<Rightarrow> 'a list" where
  "insertion_sort cmp first last' xs =
     (if first = last' then xs
      else fold (\<lambda>i ys.
             if cmp (ys ! i) (ys ! first)
             then take first ys @ ys ! i # take (i - first) (drop first ys) @ drop (Suc i) ys
             else unguarded_linear_insert cmp (ys ! i) i ys)
           [first + 1..<last'] xs)"

definition unguarded_insertion_sort ::
  "('a \<Rightarrow> 'a \<Rightarrow> bool) \<Rightarrow> nat \<Rightarrow> nat \<Rightarrow> 'a list \<Rightarrow> 'a list" where
  "unguarded_insertion_sort cmp first last' xs =
     fold (\<lambda>i ys. unguarded_linear_insert cmp (ys ! i) i ys) [first..<last'] xs"

definition final_insertion_sort ::
  "('a \<Rightarrow> 'a \<Rightarrow> bool) \<Rightarrow> nat \<Rightarrow> nat \<Rightarrow> 'a list \<Rightarrow> 'a list" where
  "final_insertion_sort cmp first last' xs =
     (if last' - first > 16
      then unguarded_insertion_sort cmp (first + 16) last'
             (insertion_sort cmp first (first + 16) xs)
      else insertion_sort cmp first last' xs)"

text \<open>\<open>std::sort\<close>.\<close>

definition libstdcxx_sort :: "('a \<Rightarrow> 'a \<Rightarrow> bool) \<Rightarrow> 'a list \<Rightarrow> 'a list" where
  "libstdcxx_sort cmp xs =
     (if xs = [] then xs
      else final_insertion_sort cmp 0 (length xs)
             (introsort_loop cmp 0 (length xs) (2 * lg (length xs)) xs))"

section \<open>Notions used to state the properties\<close>

subsection \<open>Digits\<close>

text \<open>The value of a digit, and of a string of digits; \<open>from_string\<close> undoes
  \<open>to_string\<close>.\<close>

definition digit_val :: "char \<Rightarrow> nat" where
  "digit_val c = of_char c - 48"

definition from_string :: "string \<Rightarrow> nat" where
  "from_string s = foldl (\<lambda>a c. 10 * a + digit_val c) 0 s"

subsection \<open>The tree and the catalogue\<close>

text \<open>The regular files of a tree whose size can be read, in the order of the walk;
  those whose size cannot be read; and whether the walk of a tree meets no exception
  other than that of \<open>file_size\<close>.\<close>

fun regular_files :: "dir_entry \<Rightarrow> (path \<times> nat) list" where
  "regular_files (RegularFile p (Some s)) = [(p, s)]"
| "regular_files (Directory p cs) = concat (map regular_files cs)"
| "regular_files _ = []"



text \<open>The descriptor that \<open>find_files\<close> makes of a path and a size.\<close>

definition catalogued :: "path \<times> nat \<Rightarrow> FileInfo" where
  "catalogued x = \<lparr>path = fst x, size' = snd x, hash = ''''\<rparr>"

text \<open>The sized regular files among the steps of an iteration.\<close>

fun yielded_files :: "iter_step list \<Rightarrow> (path \<times> nat) list" where
  "yielded_files [] = []"
| "yielded_files (Entry (RegularFile p (Some s)) # rest) = (p, s) # yielded_files rest"
| "yielded_files (_ # rest) = yielded_files rest"

subsection \<open>Groups\<close>

text \<open>\<open>member_of H fs files sz h m\<close>: the group member \<open>m\<close> carries the size \<open>sz\<close> and the
  digest \<open>h\<close>, \<open>h\<close> is the digest of the content at its path, and it stands for a file
  of the catalogue with that path and size.\<close>

definition member_of ::
  "(string \<Rightarrow> 64 word) \<Rightarrow> filesystem \<Rightarrow> FileInfo list \<Rightarrow> nat \<Rightarrow> string \<Rightarrow> FileInfo \<Rightarrow> bool" where
  "member_of H fs files sz h m \<longleftrightarrow>
     size' m = sz \<and> hash m = h \<and> generate_file_hash H fs (path m) = Inr h \<and>
     (\<exists>f \<in> set files. path f = path m \<and> size' f = sz)"

definition uniform_group ::
  "(string \<Rightarrow> 64 word) \<Rightarrow> filesystem \<Rightarrow> FileInfo list \<Rightarrow> string \<times> FileInfo list \<Rightarrow> bool" where
  "uniform_group H fs files g \<longleftrightarrow>
     length (snd g) > 1 \<and> (\<exists>sz. \<forall>m \<in> set (snd g). member_of H fs files sz (fst g) m)"

text \<open>The list stored under a key of a map of lists, empty when the key is absent.\<close>

definition bucket_of :: "('k \<times> 'v list) list \<Rightarrow> 'k \<Rightarrow> 'v list" where
  "bucket_of m k = (case map_of m k of None \<Rightarrow> [] | Some vs \<Rightarrow> vs)"

text \<open>The members that the files of a size bucket with digest \<open>h\<close> become, and the
  members that all the files of the catalogue with digest \<open>h\<close> become.\<close>

definition digest_members ::
  "(string \<Rightarrow> 64 word) \<Rightarrow> filesystem \<Rightarrow> nat \<Rightarrow> string \<Rightarrow> FileInfo list \<Rightarrow> FileInfo list" where
  "digest_members H fs sz h bucket =
     map (\<lambda>f. \<lparr>path = path f, size' = sz, hash = h\<rparr>)
       (filter (\<lambda>f. generate_file_hash H fs (path f) = Inr h) bucket)"

definition exact_group ::
  "(string \<Rightarrow> 64 word) \<Rightarrow> filesystem \<Rightarrow> FileInfo list \<Rightarrow> string \<times> FileInfo list \<Rightarrow> bool" where
  "exact_group H fs files g \<longleftrightarrow>
     (\<exists>sz. snd g = digest_members H fs sz (fst g) (filter (\<lambda>f. size' f = sz) files))"

definition all_members ::
  "(string \<Rightarrow> 64 word) \<Rightarrow> filesystem \<Rightarrow> string \<Rightarrow> FileInfo list \<Rightarrow> FileInfo list" where
  "all_members H fs h files =
     map (\<lambda>f. \<lparr>path = path f, size' = size' f, hash = h\<rparr>)
       (filter (\<lambda>f. generate_file_hash H fs (path f) = Inr h) files)"

text \<open>The sizes of the catalogue are the lengths of the contents: the catalogue and the
  contents are those of one filesystem.\<close>

definition sizes_match :: "filesystem \<Rightarrow> FileInfo list \<Rightarrow> bool" where
  "sizes_match fs files \<longleftrightarrow>
     (\<forall>f \<in> set files. \<forall>c. read_file fs (path f) = Inr c \<longrightarrow> size' f = length c)"

text \<open>The result of \<open>find_duplicates\<close> as a set of groups, each with its digest and its
  members in no order.\<close>

definition duplicate_set ::
  "(string \<times> FileInfo list) list \<Rightarrow> (string \<times> FileInfo multiset) set" where
  "duplicate_set duplicates = (\<lambda>g. (fst g, mset (snd g))) ` set duplicates"

text \<open>All the paths of the members of a list of groups.\<close>

definition group_paths :: "(string \<times> FileInfo list) list \<Rightarrow> path list" where
  "group_paths gs = concat (map (\<lambda>g. map path (snd g)) gs)"

subsection \<open>Output and effect\<close>

text \<open>The paths printed on the lines \<open>Duplicate:\<close>, respectively \<open>Original:\<close>.\<close>

fun reported_duplicates :: "event list \<Rightarrow> path list" where
  "reported_duplicates [] = []"
| "reported_duplicates (Duplicate q # es) = q # reported_duplicates es"
| "reported_duplicates (_ # es) = reported_duplicates es"

fun reported_originals :: "event list \<Rightarrow> path list" where
  "reported_originals [] = []"
| "reported_originals (Original q # es) = q # reported_originals es"
| "reported_originals (_ # es) = reported_originals es"

definition no_group_lines :: "event list \<Rightarrow> bool" where
  "no_group_lines new \<longleftrightarrow> reported_originals new = [] \<and> reported_duplicates new = []"

text \<open>\<open>frame ps fs fs'\<close>: from \<open>fs\<close> to \<open>fs'\<close> nothing changed but, at most, the entries
  at the paths \<open>ps\<close>.\<close>

definition frame :: "path list \<Rightarrow> filesystem \<Rightarrow> filesystem \<Rightarrow> bool" where
  "frame ps fs fs' \<longleftrightarrow>
     (\<forall>q. q \<notin> set ps \<longrightarrow> entries fs' q = entries fs q) \<and>
     remove_denied fs' = remove_denied fs \<and> link_denied fs' = link_denied fs"

text \<open>\<open>handled ps fs fs' new\<close>: the lines \<open>new\<close> name originals and duplicates among
  \<open>ps\<close> only, the originals are in \<open>fs'\<close> what they were in \<open>fs\<close>, and nothing changed
  but, at most, the duplicates.\<close>

definition handled :: "path list \<Rightarrow> filesystem \<Rightarrow> filesystem \<Rightarrow> event list \<Rightarrow> bool" where
  "handled ps fs fs' new \<longleftrightarrow>
     set (reported_originals new) \<subseteq> set ps \<and>
     set (reported_duplicates new) \<subseteq> set ps \<and>
     (\<forall>p \<in> set (reported_originals new). entries fs' p = entries fs p) \<and>
     frame (reported_duplicates new) fs fs'"


text \<open>The paths that reading \<open>p\<close> goes through: \<open>p\<close> itself, then the target of each
  symbolic link met on the way.\<close>

fun link_chain :: "nat \<Rightarrow> (path \<rightharpoonup> node) \<Rightarrow> path \<Rightarrow> path list" where
  "link_chain 0 es p = []"
| "link_chain (Suc n) es p =
     p # (case es p of Some (Symlink q) \<Rightarrow> link_chain n es q | _ \<Rightarrow> [])"

definition leads_through :: "filesystem \<Rightarrow> path \<Rightarrow> path list" where
  "leads_through fs p = link_chain 41 (entries fs) p"

subsection \<open>Hard-link mode\<close>

text \<open>What hard-link mode is to make of a superseded path \<open>p\<close>, in the words of the
  specification: the entry that the path has afterwards, and the line that reports it.
  When the removal is refused nothing has changed; when the removal is done and the
  link cannot be created the path is left without an entry; otherwise the path is a
  second name of what the original is.\<close>

definition hardlink_result :: "filesystem \<Rightarrow> path \<Rightarrow> path \<Rightarrow> node option \<times> event" where
  "hardlink_result fs original p =
     (if remove_denied fs p
      then (entries fs p, HardlinkFailed (filesystem_error ''remove'' [p]))
      else if entries fs original = None \<or> original = p \<or> link_denied fs p
      then (None, HardlinkFailed (filesystem_error ''create_hard_link'' [original, p]))
      else (entries fs original, CreatedHardlink p))"

text \<open>The lines of a group of \<open>n\<close> files with digest \<open>h\<close> in hard-link mode, when
  \<open>original\<close> is kept and \<open>rest\<close> are the superseded files in the order of the sort.\<close>

definition hardlink_report :: "filesystem \<Rightarrow> string \<Rightarrow> nat \<Rightarrow> path \<Rightarrow> path list \<Rightarrow> event list" where
  "hardlink_report fs h n original rest =
     [DuplicateGroup n, HashLine h, Original original] @
     concat (map (\<lambda>p. [Duplicate p, snd (hardlink_result fs original p)]) rest)"

text \<open>The modification time of every path of \<open>ps\<close> can be read, and reading one of them
  does not go through another: none is a symbolic link that leads to another.\<close>

definition independent_members :: "filesystem \<Rightarrow> path list \<Rightarrow> bool" where
  "independent_members fs ps \<longleftrightarrow>
     first_failure fs ps = None \<and>
     (\<forall>q \<in> set ps. set (tl (leads_through fs q)) \<inter> set ps = {})"
section \<open>Examples\<close>

text \<open>The tree of the specification's scenario, with one more file in a subdirectory:
  \<open>a.txt\<close> and \<open>b.txt\<close> hold the same five bytes, \<open>a.txt\<close> being the older;
  \<open>c.txt\<close> holds five other bytes and \<open>sub/d.txt\<close> six. The hash is a polynomial
  hash; the maps are iterated in reverse order of insertion; sorting is stable.\<close>

definition example_hash :: "string \<Rightarrow> 64 word" where
  "example_hash s = fold (\<lambda>c h. 31 * h + of_char c) s 0"

definition example_impl :: implementation where
  "example_impl =
     \<lparr>std_hash = example_hash, size_order = rev, hash_order = rev, std_sort = stable_sort\<rparr>"

definition example_fs :: filesystem where
  "example_fs =
     \<lparr>entries =
        [''r/a.txt'' \<mapsto> Regular \<lparr>content = Some ''hello'', last_write = Some 10\<rparr>,
         ''r/b.txt'' \<mapsto> Regular \<lparr>content = Some ''hello'', last_write = Some 20\<rparr>,
         ''r/sub/d.txt'' \<mapsto> Regular \<lparr>content = Some ''hello!'', last_write = Some 40\<rparr>,
         ''r/c.txt'' \<mapsto> Regular \<lparr>content = Some ''world'', last_write = Some 30\<rparr>],
      remove_denied = (\<lambda>_. False),
      link_denied = (\<lambda>_. False)\<rparr>"

definition example_tree :: dir_entry where
  "example_tree =
     Directory ''r''
       [RegularFile ''r/a.txt'' (Some 5),
        RegularFile ''r/b.txt'' (Some 5),
        Directory ''r/sub'' [RegularFile ''r/sub/d.txt'' (Some 6)],
        RegularFile ''r/c.txt'' (Some 5)]"

definition example_files :: "FileInfo list" where
  "example_files =
     [\<lparr>path = ''r/a.txt'', size' = 5, hash = ''''\<rparr>,
      \<lparr>path = ''r/b.txt'', size' = 5, hash = ''''\<rparr>,
      \<lparr>path = ''r/sub/d.txt'', size' = 6, hash = ''''\<rparr>,
      \<lparr>path = ''r/c.txt'', size' = 5, hash = ''''\<rparr>]"

definition example_group :: "string \<times> FileInfo list" where
  "example_group =
     (''5_99162322'',
      [\<lparr>path = ''r/a.txt'', size' = 5, hash = ''5_99162322''\<rparr>,
       \<lparr>path = ''r/b.txt'', size' = 5, hash = ''5_99162322''\<rparr>])"

text \<open>A second implementation: the maps are iterated in the order of insertion, and
  sorting is that of the GNU library.\<close>

definition gnu_impl :: implementation where
  "gnu_impl =
     \<lparr>std_hash = example_hash, size_order = id, hash_order = id, std_sort = libstdcxx_sort\<rparr>"

text \<open>The example with a second group, \<open>sub/d.txt\<close> and \<open>sub/e.txt\<close>, and with the
  modification time of \<open>b.txt\<close> unreadable.\<close>

definition two_group_tree :: dir_entry where
  "two_group_tree =
     Directory ''r''
       [RegularFile ''r/a.txt'' (Some 5),
        RegularFile ''r/b.txt'' (Some 5),
        Directory ''r/sub''
          [RegularFile ''r/sub/d.txt'' (Some 6), RegularFile ''r/sub/e.txt'' (Some 6)],
        RegularFile ''r/c.txt'' (Some 5)]"

definition unreadable_time_fs :: filesystem where
  "unreadable_time_fs =
     example_fs\<lparr>entries := (entries example_fs)
       (''r/b.txt'' \<mapsto> Regular \<lparr>content = Some ''hello'', last_write = None\<rparr>,
        ''r/sub/e.txt'' \<mapsto> Regular \<lparr>content = Some ''hello!'', last_write = Some 50\<rparr>)\<rparr>"

text \<open>A tree whose first entry is a directory that cannot be opened.\<close>

definition denied_tree :: dir_entry where
  "denied_tree =
     Directory ''r'' [DeniedDirectory ''r/locked'', RegularFile ''r/f.txt'' (Some 3)]"

text \<open>The example where nothing can be removed, and where no link can be created.\<close>

definition read_only_fs :: filesystem where
  "read_only_fs = example_fs\<lparr>remove_denied := (\<lambda>_. True)\<rparr>"

definition no_link_fs :: filesystem where
  "no_link_fs = example_fs\<lparr>link_denied := (\<lambda>_. True)\<rparr>"

text \<open>A tree with a regular file whose size cannot be read.\<close>

definition unsized_tree :: dir_entry where
  "unsized_tree =
     Directory ''r''
       [RegularFile ''r/a.txt'' (Some 5),
        RegularFile ''r/x.txt'' None,
        RegularFile ''r/b.txt'' (Some 5)]"


text \<open>Four files with the same five bytes, two of which are catalogued with a size that
  is not the length of what is read from them (files that \<open>file_size\<close> reports larger
  than what a read returns, as the files of a pseudo-filesystem are, or files that
  changed between the walk and the read).\<close>

definition mismatch_fs :: filesystem where
  "mismatch_fs =
     \<lparr>entries =
        [''r/a.txt'' \<mapsto> Regular \<lparr>content = Some ''hello'', last_write = Some 10\<rparr>,
         ''r/b.txt'' \<mapsto> Regular \<lparr>content = Some ''hello'', last_write = Some 20\<rparr>,
         ''r/c.txt'' \<mapsto> Regular \<lparr>content = Some ''hello'', last_write = Some 30\<rparr>,
         ''r/d.txt'' \<mapsto> Regular \<lparr>content = Some ''hello'', last_write = Some 40\<rparr>],
      remove_denied = (\<lambda>_. False),
      link_denied = (\<lambda>_. False)\<rparr>"

definition mismatch_files :: "FileInfo list" where
  "mismatch_files =
     [\<lparr>path = ''r/a.txt'', size' = 5, hash = ''''\<rparr>,
      \<lparr>path = ''r/b.txt'', size' = 5, hash = ''''\<rparr>,
      \<lparr>path = ''r/c.txt'', size' = 7, hash = ''''\<rparr>,
      \<lparr>path = ''r/d.txt'', size' = 7, hash = ''''\<rparr>]"

text \<open>A directory with a file \<open>t.txt\<close> and a symbolic link \<open>s.txt\<close> to it, the link
  being met first by the walk.\<close>

definition link_fs :: filesystem where
  "link_fs =
     \<lparr>entries =
        [''r/s.txt'' \<mapsto> Symlink ''r/t.txt'',
         ''r/t.txt'' \<mapsto> Regular \<lparr>content = Some ''hello'', last_write = Some 10\<rparr>],
      remove_denied = (\<lambda>_. False),
      link_denied = (\<lambda>_. False)\<rparr>"

definition link_tree :: dir_entry where
  "link_tree =
     Directory ''r'' [RegularFile ''r/s.txt'' (Some 5), RegularFile ''r/t.txt'' (Some 5)]"

text \<open>A directory of seventeen files \<open>f01\<close> to \<open>f17\<close>, found in this order, with the same
  byte and the same modification time.\<close>

definition tied_paths :: "path list" where
  "tied_paths =
     [''r/f01'', ''r/f02'', ''r/f03'', ''r/f04'', ''r/f05'', ''r/f06'', ''r/f07'', ''r/f08'',
      ''r/f09'', ''r/f10'', ''r/f11'', ''r/f12'', ''r/f13'', ''r/f14'', ''r/f15'', ''r/f16'',
      ''r/f17'']"

definition tied_fs :: filesystem where
  "tied_fs =
     \<lparr>entries = map_of (map (\<lambda>p. (p, Regular \<lparr>content = Some ''x'', last_write = Some 10\<rparr>))
                         tied_paths),
      remove_denied = (\<lambda>_. False),
      link_denied = (\<lambda>_. False)\<rparr>"

definition tied_tree :: dir_entry where
  "tied_tree = Directory ''r'' (map (\<lambda>p. RegularFile p (Some 1)) tied_paths)"

text \<open>The example with the second group, \<open>sub/d.txt\<close> and \<open>sub/e.txt\<close>, where no link can
  be created at \<open>b.txt\<close>.\<close>

definition partial_fs :: filesystem where
  "partial_fs =
     example_fs\<lparr>entries := (entries example_fs)
       (''r/sub/e.txt'' \<mapsto> Regular \<lparr>content = Some ''hello!'', last_write = Some 50\<rparr>),
       link_denied := (\<lambda>p. p = ''r/b.txt'')\<rparr>"

definition two_groups :: "(string \<times> FileInfo list) list" where
  "two_groups =
     [(''6_3074032015'',
       [\<lparr>path = ''r/sub/d.txt'', size' = 6, hash = ''6_3074032015''\<rparr>,
        \<lparr>path = ''r/sub/e.txt'', size' = 6, hash = ''6_3074032015''\<rparr>]),
      example_group]"
section \<open>Properties\<close>

subsection \<open>Running the model\<close>

lemmas example_defs =
  example_impl_def example_fs_def example_tree_def example_files_def example_hash_def
  example_group_def gnu_impl_def two_group_tree_def unreadable_time_fs_def
  denied_tree_def read_only_fs_def no_link_fs_def unsized_tree_def
  mismatch_fs_def mismatch_files_def link_fs_def link_tree_def tied_paths_def tied_fs_def
  tied_tree_def partial_fs_def two_groups_def

lemmas run_defs =
  main_def main_try_def find_files_def find_duplicates_def iterate_def generate_file_hash_def
  read_file_def resolve_def handle_duplicates_def handle_group_def sort_by_last_write_time_def
  last_write_time_def process_duplicate_def fs_remove_def create_hard_link_def
  to_string.simps digit_char_def stable_sort_def mtime_def

lemma follow_numeral [simp]:
  "follow (numeral k) es p =
     (case es p of
        None \<Rightarrow> None
      | Some (Regular f) \<Rightarrow> Some f
      | Some (Symlink q) \<Rightarrow> follow (pred_numeral k) es q)"
  by (simp add: numeral_eq_Suc)

lemma example_catalog: "fst (find_files example_tree []) = example_files"
  by (simp add: example_defs run_defs)

lemma example_duplicates:
  "fst (find_duplicates example_impl example_fs example_files []) = [example_group]"
  by (simp add: example_defs run_defs)

lemma iteration_order_rev: "iteration_order rev"
  by (simp add: iteration_order_def)

lemma iteration_order_id: "iteration_order id"
  by (simp add: iteration_order_def)

subsection \<open>Decimal numerals and the digest\<close>

lemma digit_char_not_underscore: "d < 10 \<Longrightarrow> digit_char d \<noteq> CHR ''_''"
proof -
  assume "d < 10"
  then have "d \<in> {0,1,2,3,4,5,6,7,8,9}" by auto
  then show ?thesis by (auto simp: digit_char_def)
qed

lemma digit_val_digit_char: "d < 10 \<Longrightarrow> digit_val (digit_char d) = d"
proof -
  assume "d < 10"
  then have "d \<in> {0,1,2,3,4,5,6,7,8,9}" by auto
  then show ?thesis by (auto simp: digit_char_def digit_val_def)
qed

lemma from_string_to_string: "from_string (to_string n) = n"
proof (induction n rule: to_string.induct)
  case (1 n)
  show ?case
  proof (cases "n < 10")
    case True
    then show ?thesis by (subst to_string.simps) (simp add: from_string_def digit_val_digit_char)
  next
    case False
    with 1 have "from_string (to_string (n div 10)) = n div 10" by simp
    with False show ?thesis
      by (subst to_string.simps) (simp add: from_string_def digit_val_digit_char)
  qed
qed

lemma to_string_inj: "to_string m = to_string n \<Longrightarrow> m = n"
  by (metis from_string_to_string)

lemma to_string_no_underscore: "CHR ''_'' \<notin> set (to_string n)"
proof (induction n rule: to_string.induct)
  case (1 n)
  show ?case
  proof (cases "n < 10")
    case True
    then show ?thesis by (subst to_string.simps) (simp add: digit_char_not_underscore[symmetric])
  next
    case False
    with 1 have "CHR ''_'' \<notin> set (to_string (n div 10))" by simp
    moreover have "digit_char (n mod 10) \<noteq> CHR ''_''" by (simp add: digit_char_not_underscore)
    ultimately show ?thesis using False
      by (subst to_string.simps) auto
  qed
qed

lemma digest_length:
  assumes "to_string a @ ''_'' @ x = to_string b @ ''_'' @ y"
  shows "a = b"
proof -
  have "takeWhile (\<lambda>c. c \<noteq> CHR ''_'') (to_string n @ ''_'' @ z) = to_string n" for n z
    using to_string_no_underscore[of n]
    by (subst takeWhile_append2) auto
  with assms have "to_string a = to_string b" by metis
  then show ?thesis by (rule to_string_inj)
qed

lemma generate_file_hash_length:
  assumes "generate_file_hash H fs p = Inr h" and "generate_file_hash H fs q = Inr h"
    and "read_file fs p = Inr c1" and "read_file fs q = Inr c2"
  shows "length c1 = length c2"
  using assms digest_length[of "length c1" "to_string (unat (H c1))" "length c2" "to_string (unat (H c2))"]
  by (simp add: generate_file_hash_def)

subsection \<open>The groups of \<open>find_duplicates\<close>\<close>

lemma push_back_at_cases:
  "(k, vs) \<in> set (push_back_at k' v m) \<Longrightarrow>
   (k, vs) \<in> set m \<or> (k = k' \<and> (vs = [v] \<or> (\<exists>vs0. (k, vs0) \<in> set m \<and> vs = vs0 @ [v])))"
  by (induction m) (auto split: if_splits)

lemma push_back_at_invariant:
  assumes "\<forall>(k, vs) \<in> set m. \<forall>x \<in> set vs. Q k x" and "Q k' v"
  shows "\<forall>(k, vs) \<in> set (push_back_at k' v m). \<forall>x \<in> set vs. Q k x"
  using assms by (fastforce dest: push_back_at_cases)

lemma group_by_size_members:
  assumes "\<forall>(s, b) \<in> set acc. \<forall>f \<in> set b. size' f = s \<and> f \<in> F" and "set files \<subseteq> F"
  shows "\<forall>(s, b) \<in> set (group_by_size files acc). \<forall>f \<in> set b. size' f = s \<and> f \<in> F"
  using assms
proof (induction files arbitrary: acc)
  case Nil
  then show ?case by simp
next
  case (Cons f files)
  have "\<forall>(s, b) \<in> set (push_back_at (size' f) f acc). \<forall>x \<in> set b. size' x = s \<and> x \<in> F"
    using Cons.prems by (intro push_back_at_invariant) auto
  with Cons show ?case by simp
qed

lemma iterate_subset: "(k, v) \<in> set (iterate ord m) \<Longrightarrow> (k, v) \<in> set m"
  by (auto simp: iterate_def split: option.splits intro: map_of_SomeD[OF sym])

lemma hash_group_members:
  assumes "\<forall>(h, ms) \<in> set hg. \<forall>m \<in> set ms. member_of H fs files sz h m"
    and "\<forall>f \<in> set bucket. size' f = sz \<and> f \<in> set files"
  shows "\<forall>(h, ms) \<in> set (fst (hash_group H fs sz bucket (hg, out))).
           \<forall>m \<in> set ms. member_of H fs files sz h m"
  using assms
proof (induction bucket arbitrary: hg out)
  case Nil
  then show ?case by simp
next
  case (Cons f bucket)
  show ?case
  proof (cases "generate_file_hash H fs (path f)")
    case (Inl e)
    with Cons show ?thesis by simp
  next
    case (Inr h)
    let ?m = "\<lparr>path = path f, size' = sz, hash = h\<rparr>"
    have "member_of H fs files sz h ?m"
      using Cons.prems(2) Inr by (auto simp: member_of_def)
    with Cons.prems(1)
    have "\<forall>(h, ms) \<in> set (push_back_at h ?m hg). \<forall>m \<in> set ms. member_of H fs files sz h m"
      by (rule push_back_at_invariant)
    with Cons.IH[of "push_back_at h ?m hg" out] Cons.prems(2) Inr show ?thesis by simp
  qed
qed

lemma assign_at_cases:
  "(k, v) \<in> set (assign_at k' v' m) \<Longrightarrow> (k, v) \<in> set m \<or> (k = k' \<and> v = v')"
  by (induction m) (auto split: if_splits)

lemma emit_groups_cases:
  "(h, g) \<in> set (emit_groups hgs D) \<Longrightarrow> (h, g) \<in> set D \<or> ((h, g) \<in> set hgs \<and> length g > 1)"
proof (induction hgs arbitrary: D)
  case Nil
  then show ?case by simp
next
  case (Cons a hgs)
  obtain h' ms where a: "a = (h', ms)" by (cases a)
  show ?case
  proof (cases "length ms > 1")
    case True
    with Cons.prems a have "(h, g) \<in> set (emit_groups hgs (assign_at h' ms D))" by simp
    from Cons.IH[OF this] have "(h, g) \<in> set (assign_at h' ms D) \<or> (h, g) \<in> set hgs \<and> 1 < length g" .
    then show ?thesis using a True assign_at_cases[of h g h' ms D] by auto
  next
    case False
    with Cons.prems a have "(h, g) \<in> set (emit_groups hgs D)" by simp
    from Cons.IH[OF this] show ?thesis by auto
  qed
qed

lemma scan_size_groups_members:
  assumes "\<forall>g \<in> set D. uniform_group (std_hash impl) fs files g"
    and "\<forall>(s, b) \<in> set sgs. \<forall>f \<in> set b. size' f = s \<and> f \<in> set files"
  shows "\<forall>g \<in> set (fst (scan_size_groups impl fs sgs (D, out))).
           uniform_group (std_hash impl) fs files g"
  using assms
proof (induction sgs arbitrary: D out)
  case Nil
  then show ?case by simp
next
  case (Cons a sgs)
  obtain sz bucket where a: "a = (sz, bucket)" by (cases a)
  show ?case
  proof (cases "length bucket > 1")
    case False
    with Cons a show ?thesis by simp
  next
    case True
    obtain hgs out' where hg: "hash_group (std_hash impl) fs sz bucket ([], out) = (hgs, out')"
      by (cases "hash_group (std_hash impl) fs sz bucket ([], out)")
    have b: "\<forall>f \<in> set bucket. size' f = sz \<and> f \<in> set files" using Cons.prems(2) a by auto
    have hgs: "\<forall>(h, ms) \<in> set hgs. \<forall>m \<in> set ms. member_of (std_hash impl) fs files sz h m"
      using hash_group_members[of "[]" "std_hash impl" fs files sz bucket out, OF _ b] hg by simp
    have "\<forall>g \<in> set (emit_groups (iterate (hash_order impl) hgs) D).
             uniform_group (std_hash impl) fs files g"
    proof
      fix g assume "g \<in> set (emit_groups (iterate (hash_order impl) hgs) D)"
      then have "(fst g, snd g) \<in> set (emit_groups (iterate (hash_order impl) hgs) D)" by simp
      from emit_groups_cases[OF this]
      consider "g \<in> set D" | "(fst g, snd g) \<in> set hgs" "length (snd g) > 1"
        using iterate_subset[of "fst g" "snd g" "hash_order impl" hgs] by auto
      then show "uniform_group (std_hash impl) fs files g"
      proof cases
        case 1
        with Cons.prems(1) show ?thesis by blast
      next
        case 2
        with hgs show ?thesis unfolding uniform_group_def by blast
      qed
    qed
    from Cons.IH[OF this, of out'] Cons.prems(2) a True hg show ?thesis by simp
  qed
qed

lemma find_duplicates_members:
  "\<forall>g \<in> set (fst (find_duplicates impl fs files out)). uniform_group (std_hash impl) fs files g"
  unfolding find_duplicates_def
proof (rule scan_size_groups_members)
  show "\<forall>g\<in>set []. uniform_group (std_hash impl) fs files g" by simp
  have "\<forall>(s, b) \<in> set (group_by_size files []). \<forall>f \<in> set b. size' f = s \<and> f \<in> set files"
    by (rule group_by_size_members) auto
  then show "\<forall>(s, b)\<in>set (iterate (size_order impl) (group_by_size files [])).
       \<forall>f\<in>set b. size' f = s \<and> f \<in> set files"
    by (auto dest!: iterate_subset)
qed

subsection \<open>Actions other than deletion and linking\<close>

lemma process_duplicates_list:
  assumes "action \<noteq> ''--delete''" "action \<noteq> ''--hardlink''"
  shows "process_duplicates action original ps (fs, out) = (fs, out @ map Duplicate ps)"
  using assms by (induction ps arbitrary: out) (simp_all add: process_duplicate_def)

lemma handle_group_list:
  assumes "action \<noteq> ''--delete''" "action \<noteq> ''--hardlink''"
  shows "handle_group impl action g (fs, out) = handle_group impl ''--list'' g (fs, out)"
  using assms
  by (simp add: handle_group_def process_duplicates_list
      cong del: prod.case_cong_weak sum.case_cong_weak list.case_cong_weak)

lemma handle_group_list_fs:
  assumes "action \<noteq> ''--delete''" "action \<noteq> ''--hardlink''"
    and "handle_group impl action g (fs, out) = (e, fs', out')"
  shows "fs' = fs"
  using assms
  by (auto simp: handle_group_def process_duplicates_list split: prod.splits sum.splits list.splits)

lemma handle_groups_list:
  assumes "action \<noteq> ''--delete''" "action \<noteq> ''--hardlink''"
  shows "handle_groups impl action gs (fs, out) = handle_groups impl ''--list'' gs (fs, out)"
proof (induction gs arbitrary: fs out)
  case Nil
  show ?case by simp
next
  case (Cons g gs)
  show ?case
    by (simp add: handle_group_list[OF assms] Cons.IH
        cong del: prod.case_cong_weak option.case_cong_weak)
qed

lemma handle_groups_list_fs:
  assumes "action \<noteq> ''--delete''" "action \<noteq> ''--hardlink''"
    and "handle_groups impl action gs (fs, out) = (e, fs', out')"
  shows "fs' = fs"
  using assms
proof (induction gs arbitrary: out)
  case Nil
  then show ?case by simp
next
  case (Cons g gs)
  obtain e1 fs1 out1 where r: "handle_group impl action g (fs, out) = (e1, fs1, out1)"
    using prod_cases3 by blast
  have fs1: "fs1 = fs" using handle_group_list_fs[OF Cons.prems(1,2) r] .
  show ?case
  proof (cases e1)
    case None
    with Cons.prems(3) r fs1 have "handle_groups impl action gs (fs, out1) = (e, fs', out')" by simp
    then show ?thesis using Cons.IH Cons.prems(1,2) by blast
  next
    case (Some a)
    with Cons.prems(3) r fs1 show ?thesis by simp
  qed
qed

lemma main_try_fs_cases:
  assumes "main_try impl directory action d fs = (e, fs', out')"
  shows "fs' = fs \<or> (\<exists>ds out0. handle_duplicates impl ds action (fs, out0) = (e, fs', out'))"
  using assms unfolding main_try_def
  by (auto split: if_splits prod.splits)

lemma main_fs_cases:
  assumes "main impl argv root fs = (x, fs', out')"
  shows "fs' = fs \<or> (\<exists>directory d e out''.
           main_try impl directory (if length argv \<ge> 3 then argv ! 2 else ''--list'') d fs
             = (e, fs', out''))"
  using assms unfolding main_def Let_def
  by (auto split: if_splits root_status.splits prod.splits option.splits)

subsection \<open>The branches of \<open>main\<close>\<close>





subsection \<open>The loop over the superseded files\<close>

lemma reported_duplicates_append [simp]:
  "reported_duplicates (xs @ ys) = reported_duplicates xs @ reported_duplicates ys"
  by (induction xs rule: reported_duplicates.induct) simp_all

lemma reported_originals_append [simp]:
  "reported_originals (xs @ ys) = reported_originals xs @ reported_originals ys"
  by (induction xs rule: reported_originals.induct) simp_all

lemma frame_refl: "frame ps fs fs"
  by (simp add: frame_def)

lemma frame_trans: "frame ps fs fs1 \<Longrightarrow> frame qs fs1 fs2 \<Longrightarrow> frame (ps @ qs) fs fs2"
  by (simp add: frame_def)

lemma process_duplicate_frame:
  "\<exists>fs' new. process_duplicate action original p (fs, out) = (fs', out @ new) \<and>
     reported_duplicates new = [p] \<and> reported_originals new = [] \<and> frame [p] fs fs'"
  by (auto simp: process_duplicate_def frame_def fs_remove_def create_hard_link_def
      split: sum.splits option.splits if_splits)

lemma process_duplicates_frame:
  "\<exists>fs' new. process_duplicates action original ps (fs, out) = (fs', out @ new) \<and>
     reported_duplicates new = ps \<and> reported_originals new = [] \<and> frame ps fs fs'"
proof (induction ps arbitrary: fs out)
  case Nil
  show ?case by (simp add: frame_refl)
next
  case (Cons p ps)
  obtain fs1 new1 where 1: "process_duplicate action original p (fs, out) = (fs1, out @ new1)"
    "reported_duplicates new1 = [p]" "reported_originals new1 = []" "frame [p] fs fs1"
    using process_duplicate_frame by blast
  obtain fs2 new2 where 2:
    "process_duplicates action original ps (fs1, out @ new1) = (fs2, (out @ new1) @ new2)"
    "reported_duplicates new2 = ps" "reported_originals new2 = []" "frame ps fs1 fs2"
    using Cons.IH by blast
  have "process_duplicates action original (p # ps) (fs, out) = (fs2, out @ (new1 @ new2))"
    using 1 2 by simp
  moreover have "reported_duplicates (new1 @ new2) = p # ps" using 1 2 by simp
  moreover have "reported_originals (new1 @ new2) = []" using 1 2 by simp
  moreover have "frame (p # ps) fs fs2" using frame_trans[OF 1(4) 2(4)] by simp
  ultimately show ?case by blast
qed

lemma handle_group_unfold:
  "handle_group impl action (h, files) (fs, out) =
     (case sort_by_last_write_time impl fs (map path files) of
        Inl e \<Rightarrow> (Some e, fs, out @ [DuplicateGroup (length files), HashLine h])
      | Inr [] \<Rightarrow> (Some front_of_empty, fs, out @ [DuplicateGroup (length files), HashLine h])
      | Inr (original # rest) \<Rightarrow>
          (case process_duplicates action original rest
                  (fs, out @ [DuplicateGroup (length files), HashLine h, Original original]) of
             (fs', out') \<Rightarrow> (None, fs', out')))"
  by (simp add: handle_group_def)


lemma handle_group_kept:
  assumes "handle_group impl action (h, files) (fs, out) = (None, fs', out')"
  shows "\<exists>original rest new.
           sort_by_last_write_time impl fs (map path files) = Inr (original # rest) \<and>
           out' = out @ [DuplicateGroup (length files), HashLine h, Original original] @ new \<and>
           reported_duplicates new = rest \<and> reported_originals new = [] \<and> frame rest fs fs'"
proof -
  from assms obtain original rest where
    s: "sort_by_last_write_time impl fs (map path files) = Inr (original # rest)"
    and p: "process_duplicates action original rest
              (fs, out @ [DuplicateGroup (length files), HashLine h, Original original]) = (fs', out')"
    by (auto simp: handle_group_unfold split: sum.splits list.splits prod.splits)
  from process_duplicates_frame[of action original rest fs
      "out @ [DuplicateGroup (length files), HashLine h, Original original]"] p
  obtain new where
    "out' = (out @ [DuplicateGroup (length files), HashLine h, Original original]) @ new"
    "reported_duplicates new = rest" "reported_originals new = []" "frame rest fs fs'"
    by auto
  with s show ?thesis by auto
qed

lemma handle_group_stopped:
  assumes "handle_group impl action (h, files) (fs, out) = (Some e, fs', out')"
  shows "fs' = fs \<and> out' = out @ [DuplicateGroup (length files), HashLine h]"
  using assms by (auto simp: handle_group_unfold split: sum.splits list.splits prod.splits)

lemma handle_group_continues:
  "fst (handle_group impl action (h, files) (fs, out)) = None \<longleftrightarrow>
     (\<exists>original rest. sort_by_last_write_time impl fs (map path files) = Inr (original # rest))"
  by (simp add: handle_group_def split: sum.splits list.splits prod.splits)


subsection \<open>Reading through symbolic links\<close>

lemma follow_unchanged:
  "(\<And>q. q \<in> set (link_chain n es p) \<Longrightarrow> es' q = es q) \<Longrightarrow> follow n es' p = follow n es p"
proof (induction n arbitrary: p)
  case 0
  show ?case by simp
next
  case (Suc n)
  have p: "es' p = es p" using Suc.prems by simp
  show ?case
  proof (cases "es p")
    case None
    with p show ?thesis by simp
  next
    case (Some x)
    show ?thesis
    proof (cases x)
      case (Regular f)
      with Some p show ?thesis by simp
    next
      case (Symlink q)
      have "follow n es' q = follow n es q"
        using Suc.prems Some Symlink by (intro Suc.IH) simp
      with Some Symlink p show ?thesis by simp
    qed
  qed
qed

lemma resolve_unchanged:
  "(\<And>q. q \<in> set (leads_through fs p) \<Longrightarrow> entries fs' q = entries fs q) \<Longrightarrow>
   resolve fs' p = resolve fs p"
  unfolding resolve_def leads_through_def by (rule follow_unchanged)
subsection \<open>Sorting by modification time\<close>

lemma mset_insert_sorted: "mset (insert_sorted lt x ys) = add_mset x (mset ys)"
  by (induction ys) simp_all

lemma set_insert_sorted: "set (insert_sorted lt x ys) = insert x (set ys)"
  by (induction ys) auto

lemma sorted_insert_sorted:
  "sorted (map key ys) \<Longrightarrow> sorted (map key (insert_sorted (\<lambda>a b. key a < key b) x ys))"
  for key :: "'a \<Rightarrow> nat"
  by (induction ys) (auto simp: set_insert_sorted)

lemma stable_sort_contract: "sort_contract stable_sort"
proof -
  have "mset (stable_sort lt xs) = mset xs" for lt :: "path \<Rightarrow> path \<Rightarrow> bool" and xs
    by (induction xs) (simp_all add: stable_sort_def mset_insert_sorted)
  moreover have "sorted (map key (stable_sort (\<lambda>a b. key a < key b) xs))"
    for key :: "path \<Rightarrow> nat" and xs
    by (induction xs) (simp_all add: stable_sort_def sorted_insert_sorted)
  ultimately show ?thesis by (simp add: sort_contract_def)
qed

lemma first_failure_None:
  "first_failure fs ps = None \<longleftrightarrow> (\<forall>p \<in> set ps. \<exists>t. last_write_time fs p = Inr t)"
  by (induction ps) (auto split: sum.splits)

lemma first_failure_Some:
  "first_failure fs ps = Some e \<Longrightarrow> \<exists>p \<in> set ps. last_write_time fs p = Inl e"
  by (induction ps) (auto split: sum.splits)

lemma last_write_time_error:
  "last_write_time fs p = Inl e \<Longrightarrow> e = filesystem_error ''last_write_time'' [p]"
  by (auto simp: last_write_time_def split: option.splits)


lemma sort_by_last_write_time_sorted:
  assumes "sort_contract (std_sort impl)" and "sort_by_last_write_time impl fs ps = Inr sorted_files"
  shows "mset sorted_files = mset ps"
    and "length ps \<ge> 2 \<Longrightarrow> \<forall>p \<in> set ps. \<exists>t. last_write_time fs p = Inr t"
    and "sorted (map (mtime fs) sorted_files) \<or> length ps < 2"
proof -
  show "mset sorted_files = mset ps"
    using assms
    by (auto simp: sort_by_last_write_time_def sort_contract_def split: if_splits option.splits)
  show "length ps \<ge> 2 \<Longrightarrow> \<forall>p \<in> set ps. \<exists>t. last_write_time fs p = Inr t"
    using assms(2)
    by (simp add: sort_by_last_write_time_def first_failure_None[symmetric] split: option.splits)
  show "sorted (map (mtime fs) sorted_files) \<or> length ps < 2"
    using assms
    by (auto simp: sort_by_last_write_time_def sort_contract_def split: if_splits option.splits)
qed

subsection \<open>The walk of \<open>find_files\<close>\<close>




lemma yielded_files_append [simp]:
  "yielded_files (xs @ ys) = yielded_files xs @ yielded_files ys"
  by (induction xs rule: yielded_files.induct) simp_all

lemma yielded_files_visit: "yielded_files (visit e) = regular_files e"
proof (induction e)
  case (RegularFile p s)
  then show ?case by (cases s) simp_all
next
  case (Directory p cs)
  then have "concat (map (yielded_files \<circ> visit) cs) = concat (map regular_files cs)"
    by (induction cs) simp_all
  moreover have "yielded_files (concat (map visit cs)) = concat (map (yielded_files \<circ> visit) cs)"
    by (induction cs) simp_all
  ultimately show ?case by simp
qed simp_all

lemma find_files_loop_prefix:
  "\<exists>found. fst (find_files_loop steps (files, out)) = files @ map catalogued found \<and>
     prefix found (yielded_files steps)"
proof (induction steps "(files, out)" arbitrary: files out rule: find_files_loop.induct)
  case (4 p s rest files out)
  then obtain found where
    "fst (find_files_loop rest (files @ [catalogued (p, s)], out))
       = (files @ [catalogued (p, s)]) @ map catalogued found"
    "prefix found (yielded_files rest)" unfolding catalogued_def fst_conv snd_conv by blast
  then have "fst (find_files_loop (Entry (RegularFile p (Some s)) # rest) (files, out))
       = files @ map catalogued ((p, s) # found) \<and>
      prefix ((p, s) # found) (yielded_files (Entry (RegularFile p (Some s)) # rest))"
    by (simp add: catalogued_def)
  then show ?case by blast
next
  case (1 files out)
  have "fst (find_files_loop [] (files, out)) = files @ map catalogued [] \<and> prefix [] (yielded_files [])"
    by simp
  then show ?case by blast
next
  case (2 e rest files out)
  have "fst (find_files_loop (IncrementThrows e # rest) (files, out)) = files @ map catalogued []
     \<and> prefix [] (yielded_files (IncrementThrows e # rest))"
    by simp
  then show ?case by blast
next
  case (3 p rest files out)
  have "fst (find_files_loop (Entry (StatusFailure p) # rest) (files, out)) = files @ map catalogued []
     \<and> prefix [] (yielded_files (Entry (StatusFailure p) # rest))"
    by simp
  then show ?case by blast
qed simp_all

lemma find_files_prefix:
  "\<exists>found. fst (find_files directory out) = map catalogued found \<and>
     prefix found (regular_files directory)"
proof (cases directory)
  case (Directory p cs)
  have "yielded_files (concat (map visit cs)) = regular_files directory"
    using yielded_files_visit[of directory] Directory by simp
  with find_files_loop_prefix[of "concat (map visit cs)" "[]" out] Directory
  show ?thesis by (simp add: find_files_def)
next
  case (RegularFile p s)
  have "fst (find_files directory out) = map catalogued [] \<and> prefix [] (regular_files directory)"
    using RegularFile by (simp add: find_files_def)
  then show ?thesis by blast
next
  case (OtherEntry p)
  have "fst (find_files directory out) = map catalogued [] \<and> prefix [] (regular_files directory)"
    using OtherEntry by (simp add: find_files_def)
  then show ?thesis by blast
next
  case (StatusFailure p)
  have "fst (find_files directory out) = map catalogued [] \<and> prefix [] (regular_files directory)"
    using StatusFailure by (simp add: find_files_def)
  then show ?thesis by blast
next
  case (DeniedDirectory p)
  have "fst (find_files directory out) = map catalogued [] \<and> prefix [] (regular_files directory)"
    using DeniedDirectory by (simp add: find_files_def)
  then show ?thesis by blast
qed

subsection \<open>What handling the groups reports and changes\<close>

lemma handle_group_handled:
  assumes "sort_contract (std_sort impl)" and "distinct (map path files)"
    and "handle_group impl action (h, files) (fs, out) = (e, fs', out')"
  shows "\<exists>new. out' = out @ new \<and> handled (map path files) fs fs' new"
proof (cases e)
  case (Some err)
  with assms(3) have "fs' = fs" "out' = out @ [DuplicateGroup (length files), HashLine h]"
    using handle_group_stopped by blast+
  then have "out' = out @ [DuplicateGroup (length files), HashLine h] \<and>
     handled (map path files) fs fs' [DuplicateGroup (length files), HashLine h]"
    by (simp add: handled_def frame_refl)
  then show ?thesis by blast
next
  case None
  with assms(3) handle_group_kept obtain original rest new where
    s: "sort_by_last_write_time impl fs (map path files) = Inr (original # rest)"
    and o: "out' = out @ [DuplicateGroup (length files), HashLine h, Original original] @ new"
      "reported_duplicates new = rest" "reported_originals new = []" "frame rest fs fs'"
    by blast
  from sort_by_last_write_time_sorted(1)[OF assms(1) s]
  have m: "mset (original # rest) = mset (map path files)" .
  then have "distinct (original # rest)" using assms(2) by (metis mset_eq_imp_distinct_iff)
  then have notin: "original \<notin> set rest" by simp
  from m have sub: "set (original # rest) = set (map path files)" by (rule mset_eq_setD)
  let ?new = "[DuplicateGroup (length files), HashLine h, Original original] @ new"
  have "entries fs' original = entries fs original" using o(4) notin by (simp add: frame_def)
  then have "handled (map path files) fs fs' ?new"
    using o(2,3,4) sub by (auto simp: handled_def)
  with o(1) show ?thesis by blast
qed

lemma handled_Cons:
  assumes "handled ps fs fs1 new1" and "handled qs fs1 fs2 new2" and "set ps \<inter> set qs = {}"
  shows "handled (ps @ qs) fs fs2 (new1 @ new2)"
proof -
  have f1: "frame (reported_duplicates new1) fs fs1" and f2: "frame (reported_duplicates new2) fs1 fs2"
    using assms(1,2) by (simp_all add: handled_def)
  have "entries fs2 p = entries fs p" if "p \<in> set (reported_originals new1)" for p
  proof -
    from that assms(1) have "p \<in> set ps" "entries fs1 p = entries fs p" by (auto simp: handled_def)
    moreover from this(1) assms(2,3) have "p \<notin> set (reported_duplicates new2)"
      by (auto simp: handled_def)
    ultimately show ?thesis using f2 by (simp add: frame_def)
  qed
  moreover have "entries fs2 p = entries fs p" if "p \<in> set (reported_originals new2)" for p
  proof -
    from that assms(2) have "p \<in> set qs" "entries fs2 p = entries fs1 p" by (auto simp: handled_def)
    moreover from this(1) assms(1,3) have "p \<notin> set (reported_duplicates new1)"
      by (auto simp: handled_def)
    ultimately show ?thesis using f1 by (simp add: frame_def)
  qed
  moreover have "frame (reported_duplicates (new1 @ new2)) fs fs2"
    using frame_trans[OF f1 f2] by simp
  ultimately show ?thesis using assms(1,2) by (auto simp: handled_def)
qed

lemma handle_groups_handled:
  assumes "sort_contract (std_sort impl)" and "distinct (group_paths gs)"
    and "handle_groups impl action gs (fs, out) = (e, fs', out')"
  shows "\<exists>new. out' = out @ new \<and> handled (group_paths gs) fs fs' new"
  using assms(2,3)
proof (induction gs arbitrary: fs out)
  case Nil
  then have "out' = out @ [] \<and> handled (group_paths []) fs fs' []"
    by (simp add: handled_def frame_refl group_paths_def)
  then show ?case by blast
next
  case (Cons g gs)
  obtain h files where g: "g = (h, files)" by (cases g)
  from Cons.prems(1) g have d: "distinct (map path files)" "distinct (group_paths gs)"
    "set (map path files) \<inter> set (group_paths gs) = {}"
    by (simp_all add: group_paths_def)
  obtain e1 fs1 out1 where r: "handle_group impl action (h, files) (fs, out) = (e1, fs1, out1)"
    using prod_cases3 by blast
  from handle_group_handled[OF assms(1) d(1) r] obtain new1 where
    n1: "out1 = out @ new1" "handled (map path files) fs fs1 new1" by blast
  show ?case
  proof (cases e1)
    case (Some err)
    with Cons.prems(2) g r have "fs' = fs1" "out' = out1" by simp_all
    moreover have "handled (map path files @ group_paths gs) fs fs1 (new1 @ [])"
      using handled_Cons[OF n1(2) _ d(3), of fs1 "[]"] by (simp add: handled_def frame_refl)
    ultimately have "out' = out @ new1 \<and> handled (group_paths (g # gs)) fs fs' new1"
      using n1(1) g by (simp add: group_paths_def)
    then show ?thesis by blast
  next
    case None
    with Cons.prems(2) g r have "handle_groups impl action gs (fs1, out1) = (e, fs', out')" by simp
    from Cons.IH[OF d(2) this] obtain new2 where
      n2: "out' = out1 @ new2" "handled (group_paths gs) fs1 fs' new2" by blast
    have "handled (map path files @ group_paths gs) fs fs' (new1 @ new2)"
      using handled_Cons[OF n1(2) n2(2) d(3)] .
    then have "out' = out @ (new1 @ new2) \<and> handled (group_paths (g # gs)) fs fs' (new1 @ new2)"
      using n1(1) n2(1) g by (simp add: group_paths_def)
    then show ?thesis by blast
  qed
qed

subsection \<open>Iterating a map\<close>

lemma iterate_eq_map:
  assumes "distinct (map fst m)" and "set (ord (map fst m)) = set (map fst m)"
  shows "iterate ord m = map (\<lambda>k. (k, the (map_of m k))) (ord (map fst m))"
proof -
  have "(case map_of m k of None \<Rightarrow> [] | Some v \<Rightarrow> [(k, v)]) = [(k, the (map_of m k))]"
    if "k \<in> set (ord (map fst m))" for k
  proof -
    from that assms(2) have "k \<in> fst ` set m" by simp
    then obtain v where "map_of m k = Some v" by (metis domD dom_map_of_conv_image_fst)
    then show ?thesis by simp
  qed
  then have h: "map (\<lambda>k. case map_of m k of None \<Rightarrow> [] | Some v \<Rightarrow> [(k, v)]) (ord (map fst m))
           = map (\<lambda>k. [(k, the (map_of m k))]) (ord (map fst m))"
    by (intro map_cong) simp_all
  show ?thesis unfolding iterate_def h by simp
qed

lemma map_the_map_of:
  assumes "distinct (map fst m)"
  shows "map (\<lambda>k. (k, the (map_of m k))) (map fst m) = m"
proof -
  have "(fst p, the (map_of m (fst p))) = p" if "p \<in> set m" for p
    using map_of_is_SomeI[OF assms, of "fst p" "snd p"] that by simp
  then have "map (\<lambda>p. (fst p, the (map_of m (fst p)))) m = m" by (intro map_idI)
  then show ?thesis by (simp add: comp_def)
qed

lemma mset_iterate:
  assumes "iteration_order ord" and "distinct (map fst m)"
  shows "mset (iterate ord m) = mset m"
proof -
  from assms have o: "distinct (ord (map fst m))" "set (ord (map fst m)) = set (map fst m)"
    by (simp_all add: iteration_order_def)
  then have "mset (ord (map fst m)) = mset (map fst m)"
    using set_eq_iff_mset_eq_distinct[OF o(1) assms(2)] by blast
  then have "mset (map (\<lambda>k. (k, the (map_of m k))) (ord (map fst m)))
           = mset (map (\<lambda>k. (k, the (map_of m k))) (map fst m))"
    by (metis mset_map)
  also have "\<dots> = mset m" by (simp only: map_the_map_of[OF assms(2)])
  finally show ?thesis by (simp only: iterate_eq_map[of m ord, OF assms(2) o(2)])
qed

lemma group_paths_mset:
  assumes "mset gs = mset gs'"
  shows "mset (group_paths gs) = mset (group_paths gs')"
proof -
  have "mset (group_paths xs) = (\<Sum>g \<in># mset xs. mset (map path (snd g)))" for xs
    by (induction xs) (simp_all add: group_paths_def)
  with assms show ?thesis by simp
qed

lemma group_paths_iterate:
  assumes "iteration_order ord" and "distinct (map fst m)"
  shows "distinct (group_paths (iterate ord m)) = distinct (group_paths m)"
    and "set (group_paths (iterate ord m)) = set (group_paths m)"
  using group_paths_mset[OF mset_iterate[OF assms]]
  by (metis mset_eq_imp_distinct_iff, metis mset_eq_setD)

subsection \<open>The maps of \<open>find_duplicates\<close> in closed form\<close>

lemma map_fst_push_back_at:
  "map fst (push_back_at k v m) = (if k \<in> set (map fst m) then map fst m else map fst m @ [k])"
  by (induction m) (force simp: image_iff)+

lemma keys_push_back_at: "fst ` set (push_back_at k v m) = insert k (fst ` set m)"
  using arg_cong[OF map_fst_push_back_at[of k v m], of set] by (auto split: if_splits)

lemma distinct_push_back_at:
  "distinct (map fst m) \<Longrightarrow> distinct (map fst (push_back_at k v m))"
  by (simp add: map_fst_push_back_at)

lemma bucket_of_push_back_at:
  "bucket_of (push_back_at k v m) k' = (if k' = k then bucket_of m k @ [v] else bucket_of m k')"
  by (induction m) (auto simp: bucket_of_def)

lemma bucket_of_member:
  "distinct (map fst m) \<Longrightarrow> (k, vs) \<in> set m \<Longrightarrow> bucket_of m k = vs"
  by (simp add: bucket_of_def)

lemma member_bucket_of:
  "k \<in> fst ` set m \<Longrightarrow> (k, bucket_of m k) \<in> set m"
proof -
  assume "k \<in> fst ` set m"
  then obtain v where "map_of m k = Some v" by (metis domD dom_map_of_conv_image_fst)
  then show ?thesis by (simp add: bucket_of_def map_of_SomeD)
qed

lemma group_by_size_keys:
  "fst ` set (group_by_size files acc) = fst ` set acc \<union> size' ` set files"
  by (induction files arbitrary: acc) (auto simp: keys_push_back_at)

lemma group_by_size_distinct:
  "distinct (map fst acc) \<Longrightarrow> distinct (map fst (group_by_size files acc))"
  by (induction files arbitrary: acc) (simp_all add: distinct_push_back_at)

lemma group_by_size_bucket:
  "bucket_of (group_by_size files acc) s = bucket_of acc s @ filter (\<lambda>f. size' f = s) files"
  by (induction files arbitrary: acc) (auto simp: bucket_of_push_back_at)

lemma size_group_is_filter:
  assumes "(s, b) \<in> set (group_by_size files [])"
  shows "b = filter (\<lambda>f. size' f = s) files"
  using bucket_of_member[OF group_by_size_distinct[of "[]" files] assms]
    group_by_size_bucket[of files "[]" s]
  by (simp add: bucket_of_def)

lemma hash_group_keys:
  "fst ` set (fst (hash_group H fs sz bucket (hg, out))) =
     fst ` set hg \<union> {h. \<exists>f \<in> set bucket. generate_file_hash H fs (path f) = Inr h}"
proof (induction bucket arbitrary: hg out)
  case Nil
  show ?case by simp
next
  case (Cons f bucket)
  show ?case
    by (cases "generate_file_hash H fs (path f)") (auto simp: Cons.IH keys_push_back_at)
qed

lemma hash_group_distinct:
  "distinct (map fst hg) \<Longrightarrow> distinct (map fst (fst (hash_group H fs sz bucket (hg, out))))"
proof (induction bucket arbitrary: hg out)
  case Nil
  then show ?case by simp
next
  case (Cons f bucket)
  then show ?case
    by (cases "generate_file_hash H fs (path f)") (simp_all add: distinct_push_back_at)
qed

lemma hash_group_bucket:
  "bucket_of (fst (hash_group H fs sz bucket (hg, out))) h =
     bucket_of hg h @ digest_members H fs sz h bucket"
proof (induction bucket arbitrary: hg out)
  case Nil
  show ?case by (simp add: digest_members_def)
next
  case (Cons f bucket)
  show ?case
    by (cases "generate_file_hash H fs (path f)")
      (auto simp: Cons.IH bucket_of_push_back_at digest_members_def)
qed

lemma hash_group_is_digest_members:
  assumes "(h, ms) \<in> set (fst (hash_group H fs sz bucket ([], out)))"
  shows "ms = digest_members H fs sz h bucket"
  using bucket_of_member[OF hash_group_distinct[of "[]" H fs sz bucket out] assms]
    hash_group_bucket[of H fs sz bucket "[]" out h]
  by (simp add: bucket_of_def)

lemma map_fst_assign_at:
  "map fst (assign_at k v m) = (if k \<in> set (map fst m) then map fst m else map fst m @ [k])"
  by (induction m) (force simp: image_iff)+

lemma distinct_assign_at: "distinct (map fst m) \<Longrightarrow> distinct (map fst (assign_at k v m))"
  by (simp add: map_fst_assign_at)

lemma map_of_assign_at: "map_of (assign_at k v m) = (map_of m)(k \<mapsto> v)"
  by (induction m) (auto simp: fun_eq_iff)

lemma emit_groups_distinct:
  "distinct (map fst D) \<Longrightarrow> distinct (map fst (emit_groups hgs D))"
  by (induction hgs arbitrary: D) (auto simp: distinct_assign_at)

lemma scan_size_groups_distinct:
  "distinct (map fst D) \<Longrightarrow> distinct (map fst (fst (scan_size_groups impl fs sgs (D, out))))"
proof (induction sgs arbitrary: D out)
  case Nil
  then show ?case by simp
next
  case (Cons a sgs)
  obtain sz bucket where a: "a = (sz, bucket)" by (cases a)
  show ?case using Cons a
    by (auto simp: emit_groups_distinct split: prod.splits)
qed

lemma find_duplicates_distinct_keys:
  "distinct (map fst (fst (find_duplicates impl fs files out)))"
  by (simp add: find_duplicates_def scan_size_groups_distinct)

lemma scan_size_groups_exact:
  assumes "\<forall>g \<in> set D. exact_group (std_hash impl) fs files g"
    and "\<forall>(s, b) \<in> set sgs. b = filter (\<lambda>f. size' f = s) files"
  shows "\<forall>g \<in> set (fst (scan_size_groups impl fs sgs (D, out))).
           exact_group (std_hash impl) fs files g"
  using assms
proof (induction sgs arbitrary: D out)
  case Nil
  then show ?case by simp
next
  case (Cons a sgs)
  obtain sz bucket where a: "a = (sz, bucket)" by (cases a)
  show ?case
  proof (cases "length bucket > 1")
    case False
    with Cons a show ?thesis by simp
  next
    case True
    obtain hgs out' where hg: "hash_group (std_hash impl) fs sz bucket ([], out) = (hgs, out')"
      by (cases "hash_group (std_hash impl) fs sz bucket ([], out)")
    have b: "bucket = filter (\<lambda>f. size' f = sz) files" using Cons.prems(2) a by auto
    have "\<forall>g \<in> set (emit_groups (iterate (hash_order impl) hgs) D).
             exact_group (std_hash impl) fs files g"
    proof
      fix g assume "g \<in> set (emit_groups (iterate (hash_order impl) hgs) D)"
      then have "(fst g, snd g) \<in> set (emit_groups (iterate (hash_order impl) hgs) D)" by simp
      from emit_groups_cases[OF this]
      consider "g \<in> set D" | "(fst g, snd g) \<in> set hgs"
        using iterate_subset[of "fst g" "snd g" "hash_order impl" hgs] by auto
      then show "exact_group (std_hash impl) fs files g"
      proof cases
        case 1
        with Cons.prems(1) show ?thesis by blast
      next
        case 2
        with hg have "(fst g, snd g) \<in> set (fst (hash_group (std_hash impl) fs sz bucket ([], out)))"
          by simp
        from hash_group_is_digest_members[OF this] b show ?thesis
          unfolding exact_group_def by blast
      qed
    qed
    from Cons.IH[OF this, of out'] Cons.prems(2) a True hg show ?thesis by simp
  qed
qed

lemma find_duplicates_exact:
  "\<forall>g \<in> set (fst (find_duplicates impl fs files out)). exact_group (std_hash impl) fs files g"
  unfolding find_duplicates_def
proof (rule scan_size_groups_exact)
  show "\<forall>g\<in>set []. exact_group (std_hash impl) fs files g" by simp
  show "\<forall>(s, b)\<in>set (iterate (size_order impl) (group_by_size files [])).
       b = filter (\<lambda>f. size' f = s) files"
    using size_group_is_filter by (auto dest!: iterate_subset)
qed

subsection \<open>The result when the sizes are those of the contents\<close>

lemma same_digest_same_size:
  assumes "sizes_match fs files" and "f \<in> set files" and "f' \<in> set files"
    and "generate_file_hash H fs (path f) = Inr h" and "generate_file_hash H fs (path f') = Inr h"
  shows "size' f = size' f'"
proof -
  obtain c where c: "read_file fs (path f) = Inr c"
    using assms(4) by (cases "read_file fs (path f)") (simp_all add: generate_file_hash_def)
  obtain c' where c': "read_file fs (path f') = Inr c'"
    using assms(5) by (cases "read_file fs (path f')") (simp_all add: generate_file_hash_def)
  have "length c = length c'" using generate_file_hash_length[OF assms(4,5) c c'] .
  moreover have "size' f = length c" "size' f' = length c'"
    using assms(1,2,3) c c' by (simp_all add: sizes_match_def)
  ultimately show ?thesis by simp
qed

lemma digest_members_all:
  assumes "sizes_match fs files"
    and "digest_members H fs s h (filter (\<lambda>f. size' f = s) files) \<noteq> []"
  shows "digest_members H fs s h (filter (\<lambda>f. size' f = s) files) = all_members H fs h files"
proof -
  from assms(2) obtain f0 where f0: "f0 \<in> set files" "size' f0 = s"
    "generate_file_hash H fs (path f0) = Inr h"
    by (auto simp: digest_members_def filter_empty_conv)
  have s: "size' f = s" if "f \<in> set files" "generate_file_hash H fs (path f) = Inr h" for f
    using same_digest_same_size[OF assms(1) that(1) f0(1) that(2) f0(3)] f0(2) by simp
  have "filter (\<lambda>f. generate_file_hash H fs (path f) = Inr h) (filter (\<lambda>f. size' f = s) files)
      = filter (\<lambda>f. generate_file_hash H fs (path f) = Inr h) files"
    unfolding filter_filter by (rule filter_cong) (use s in auto)
  moreover have "map (\<lambda>f. \<lparr>path = path f, size' = s, hash = h\<rparr>)
           (filter (\<lambda>f. generate_file_hash H fs (path f) = Inr h) files)
      = map (\<lambda>f. \<lparr>path = path f, size' = size' f, hash = h\<rparr>)
           (filter (\<lambda>f. generate_file_hash H fs (path f) = Inr h) files)"
    by (rule map_cong) (use s in auto)
  ultimately show ?thesis by (simp add: digest_members_def all_members_def)
qed

lemma all_members_in_bucket:
  assumes "sizes_match fs files" and "all_members H fs h files \<noteq> []"
  shows "\<exists>s \<in> size' ` set files.
           digest_members H fs s h (filter (\<lambda>f. size' f = s) files) = all_members H fs h files"
proof -
  from assms(2) obtain f0 where f0: "f0 \<in> set files" "generate_file_hash H fs (path f0) = Inr h"
    by (auto simp: all_members_def filter_empty_conv)
  then have "digest_members H fs (size' f0) h (filter (\<lambda>f. size' f = size' f0) files) \<noteq> []"
    by (auto simp: digest_members_def filter_empty_conv)
  from digest_members_all[OF assms(1) this] f0(1) show ?thesis by blast
qed

lemma map_of_emit_groups:
  "map_of (emit_groups hgs D) h =
     (case map_of (rev (filter (\<lambda>g. length (snd g) > 1) hgs)) h of
        Some ms \<Rightarrow> Some ms
      | None \<Rightarrow> map_of D h)"
proof (induction hgs arbitrary: D)
  case Nil
  show ?case by simp
next
  case (Cons a hgs)
  obtain h' ms where a: "a = (h', ms)" by (cases a)
  show ?case
    by (simp add: a Cons.IH map_of_assign_at map_add_def split: option.splits)
qed

lemma map_of_filtered_iteration:
  assumes "iteration_order ord" and "distinct (map fst m)"
  shows "map_of (rev (filter P (iterate ord m))) h =
           (case map_of m h of Some v \<Rightarrow> if P (h, v) then Some v else None | None \<Rightarrow> None)"
proof -
  let ?xs = "rev (filter P (iterate ord m))"
  from mset_iterate[OF assms] have m: "mset (iterate ord m) = mset m" .
  then have "mset (map fst (iterate ord m)) = mset (map fst m)" by (metis mset_map)
  then have "distinct (map fst (iterate ord m))" using assms(2) by (metis mset_eq_imp_distinct_iff)
  then have d: "distinct (map fst ?xs)" by (simp add: distinct_map_filter rev_map[symmetric])
  have s: "set ?xs = {g \<in> set m. P g}" using mset_eq_setD[OF m] by auto
  show ?thesis
  proof (cases "map_of m h")
    case None
    then have "h \<notin> fst ` set m" by (simp add: map_of_eq_None_iff)
    then have "h \<notin> fst ` set ?xs" using s by force
    then have "map_of ?xs h = None" by (simp add: map_of_eq_None_iff)
    with None show ?thesis by simp
  next
    case (Some v)
    then have v: "(h, v) \<in> set m" by (rule map_of_SomeD)
    show ?thesis
    proof (cases "P (h, v)")
      case True
      with v s have "(h, v) \<in> set ?xs" by simp
      with d have "map_of ?xs h = Some v" by (rule map_of_is_SomeI)
      with Some True show ?thesis by simp
    next
      case False
      have "h \<notin> fst ` set ?xs"
      proof
        assume "h \<in> fst ` set ?xs"
        then obtain v' where "(h, v') \<in> set m" "P (h, v')" using s by force
        with v assms(2) False show False by (metis eq_key_imp_eq_value)
      qed
      then have "map_of ?xs h = None" by (simp add: map_of_eq_None_iff)
      with Some False show ?thesis by simp
    qed
  qed
qed

lemma map_of_hash_group:
  "map_of (fst (hash_group H fs sz bucket ([], out))) h =
     (if digest_members H fs sz h bucket = [] then None
      else Some (digest_members H fs sz h bucket))"
proof (cases "h \<in> fst ` set (fst (hash_group H fs sz bucket ([], out)))")
  case True
  from member_bucket_of[OF this] hash_group_bucket[of H fs sz bucket "[]" out h]
  have "(h, digest_members H fs sz h bucket) \<in> set (fst (hash_group H fs sz bucket ([], out)))"
    by (simp add: bucket_of_def)
  then have "map_of (fst (hash_group H fs sz bucket ([], out))) h = Some (digest_members H fs sz h bucket)"
    using hash_group_distinct[of "[]" H fs sz bucket out] by simp
  moreover from True have "digest_members H fs sz h bucket \<noteq> []"
    by (auto simp: hash_group_keys digest_members_def filter_empty_conv)
  ultimately show ?thesis by simp
next
  case False
  then have "map_of (fst (hash_group H fs sz bucket ([], out))) h = None"
    by (simp add: map_of_eq_None_iff)
  moreover from False have "digest_members H fs sz h bucket = []"
    by (auto simp: hash_group_keys digest_members_def filter_empty_conv)
  ultimately show ?thesis by simp
qed

lemma map_of_emitted:
  assumes "iteration_order (hash_order impl)"
  shows "map_of (emit_groups (iterate (hash_order impl)
            (fst (hash_group (std_hash impl) fs sz bucket ([], out)))) D) h =
         (if length (digest_members (std_hash impl) fs sz h bucket) > 1
          then Some (digest_members (std_hash impl) fs sz h bucket)
          else map_of D h)"
  using map_of_filtered_iteration[OF assms hash_group_distinct[of "[]" "std_hash impl" fs sz bucket out],
      of "\<lambda>g. length (snd g) > 1" h]
  by (auto simp: map_of_emit_groups map_of_hash_group)

lemma length_digest_members: "length (digest_members H fs sz h bucket) \<le> length bucket"
  by (simp add: digest_members_def)

lemma map_of_scan_size_groups:
  assumes "iteration_order (hash_order impl)" and "sizes_match fs files"
    and "\<forall>(s, b) \<in> set sgs. b = filter (\<lambda>f. size' f = s) files"
  shows "map_of (fst (scan_size_groups impl fs sgs (D, out))) h =
           (if \<exists>(s, b) \<in> set sgs. length (digest_members (std_hash impl) fs s h b) > 1
            then Some (all_members (std_hash impl) fs h files)
            else map_of D h)"
  using assms(3)
proof (induction sgs arbitrary: D out)
  case Nil
  show ?case by simp
next
  case (Cons a sgs)
  obtain sz bucket where a: "a = (sz, bucket)" by (cases a)
  have b: "bucket = filter (\<lambda>f. size' f = sz) files" using Cons.prems a by auto
  have rest: "\<forall>(s, b) \<in> set sgs. b = filter (\<lambda>f. size' f = s) files" using Cons.prems by auto
  let ?dm = "digest_members (std_hash impl) fs sz h bucket"
  have all: "?dm = all_members (std_hash impl) fs h files" if "length ?dm > 1"
  proof -
    from that have "?dm \<noteq> []" by auto
    then show ?thesis using digest_members_all[OF assms(2), of "std_hash impl" sz h] b by simp
  qed
  show ?case
  proof (cases "length bucket > 1")
    case False
    then have "\<not> length ?dm > 1" using length_digest_members[of "std_hash impl" fs sz h bucket] by simp
    with False a Cons.IH[OF rest] show ?thesis by simp
  next
    case True
    obtain hgs out' where hg: "hash_group (std_hash impl) fs sz bucket ([], out) = (hgs, out')"
      by (cases "hash_group (std_hash impl) fs sz bucket ([], out)")
    then have hgs: "hgs = fst (hash_group (std_hash impl) fs sz bucket ([], out))" by simp
    let ?D = "emit_groups (iterate (hash_order impl) hgs) D"
    have D': "map_of ?D h = (if length ?dm > 1 then Some ?dm else map_of D h)"
      unfolding hgs by (rule map_of_emitted[OF assms(1)])
    have "map_of (fst (scan_size_groups impl fs (a # sgs) (D, out))) h
        = map_of (fst (scan_size_groups impl fs sgs (?D, out'))) h"
      using a True hg by simp
    also have "\<dots> = (if \<exists>(s, b) \<in> set sgs. length (digest_members (std_hash impl) fs s h b) > 1
            then Some (all_members (std_hash impl) fs h files)
            else map_of ?D h)"
      by (rule Cons.IH[OF rest])
    finally have step: "map_of (fst (scan_size_groups impl fs (a # sgs) (D, out))) h =
        (if \<exists>(s, b) \<in> set sgs. length (digest_members (std_hash impl) fs s h b) > 1
            then Some (all_members (std_hash impl) fs h files)
            else map_of ?D h)" .
    show ?thesis
    proof (cases "length ?dm > 1")
      case True
      then have "map_of ?D h = Some (all_members (std_hash impl) fs h files)"
        using D' all by simp
      moreover have "\<exists>(s, b) \<in> set (a # sgs). length (digest_members (std_hash impl) fs s h b) > 1"
        using True a by simp
      ultimately show ?thesis using step by simp
    next
      case False
      then have "map_of ?D h = map_of D h" using D' by simp
      moreover have "(\<exists>(s, b) \<in> set (a # sgs). length (digest_members (std_hash impl) fs s h b) > 1)
         \<longleftrightarrow> (\<exists>(s, b) \<in> set sgs. length (digest_members (std_hash impl) fs s h b) > 1)"
        using False a by simp
      ultimately show ?thesis using step by simp
    qed
  qed
qed

lemma map_of_find_duplicates:
  assumes "iteration_order (size_order impl)" and "iteration_order (hash_order impl)"
    and "sizes_match fs files"
  shows "map_of (fst (find_duplicates impl fs files out)) h =
           (if length (all_members (std_hash impl) fs h files) > 1
            then Some (all_members (std_hash impl) fs h files)
            else None)"
proof -
  let ?sgs = "iterate (size_order impl) (group_by_size files [])"
  let ?H = "std_hash impl"
  have set_sgs: "set ?sgs = set (group_by_size files [])"
    by (rule mset_eq_setD[OF mset_iterate[OF assms(1) group_by_size_distinct]]) simp
  then have filt: "\<forall>(s, b) \<in> set ?sgs. b = filter (\<lambda>f. size' f = s) files"
    using size_group_is_filter by auto
  have "(\<exists>(s, b) \<in> set ?sgs. length (digest_members ?H fs s h b) > 1)
          \<longleftrightarrow> length (all_members ?H fs h files) > 1"
  proof
    assume "\<exists>(s, b) \<in> set ?sgs. length (digest_members ?H fs s h b) > 1"
    then obtain s b where sb: "(s, b) \<in> set ?sgs" "length (digest_members ?H fs s h b) > 1" by auto
    with filt have b: "b = filter (\<lambda>f. size' f = s) files" by auto
    from sb(2) have "digest_members ?H fs s h b \<noteq> []" by auto
    with digest_members_all[OF assms(3), of ?H s h] b sb(2)
    show "length (all_members ?H fs h files) > 1" by simp
  next
    assume l: "length (all_members ?H fs h files) > 1"
    then have "all_members ?H fs h files \<noteq> []" by auto
    from all_members_in_bucket[OF assms(3) this] obtain s where
      s: "s \<in> size' ` set files"
      "digest_members ?H fs s h (filter (\<lambda>f. size' f = s) files) = all_members ?H fs h files"
      by blast
    from s(1) have "s \<in> fst ` set (group_by_size files [])" by (simp add: group_by_size_keys)
    moreover have "bucket_of (group_by_size files []) s = filter (\<lambda>f. size' f = s) files"
      unfolding group_by_size_bucket by (simp add: bucket_of_def)
    ultimately have "(s, filter (\<lambda>f. size' f = s) files) \<in> set ?sgs"
      using member_bucket_of[of s "group_by_size files []"] set_sgs by simp
    with s(2) l show "\<exists>(s, b) \<in> set ?sgs. length (digest_members ?H fs s h b) > 1" by force
  qed
  with map_of_scan_size_groups[OF assms(2,3) filt, of "[]" out h]
  show ?thesis by (simp add: find_duplicates_def)
qed

lemma mset_all_members:
  assumes "mset files1 = mset files2"
  shows "mset (all_members H fs h files1) = mset (all_members H fs h files2)"
  using assms by (simp add: all_members_def)

lemma sizes_match_mset:
  assumes "mset files1 = mset files2"
  shows "sizes_match fs files1 = sizes_match fs files2"
proof -
  from assms have "set files1 = set files2" by (rule mset_eq_setD)
  then show ?thesis by (simp add: sizes_match_def)
qed

lemma duplicate_set_subset:
  assumes "iteration_order (size_order impl1)" and "iteration_order (hash_order impl1)"
    and "iteration_order (size_order impl2)" and "iteration_order (hash_order impl2)"
    and "std_hash impl1 = std_hash impl2"
    and "sizes_match fs files1" and "mset files1 = mset files2"
  shows "duplicate_set (fst (find_duplicates impl1 fs files1 out1))
           \<subseteq> duplicate_set (fst (find_duplicates impl2 fs files2 out2))"
proof
  fix x assume "x \<in> duplicate_set (fst (find_duplicates impl1 fs files1 out1))"
  then obtain h ms where x: "x = (h, mset ms)"
    and g: "(h, ms) \<in> set (fst (find_duplicates impl1 fs files1 out1))"
    by (auto simp: duplicate_set_def)
  from g have "map_of (fst (find_duplicates impl1 fs files1 out1)) h = Some ms"
    using find_duplicates_distinct_keys by simp
  then have ms: "ms = all_members (std_hash impl1) fs h files1" "length ms > 1"
    using map_of_find_duplicates[OF assms(1,2,6), of out1 h] by (auto split: if_splits)
  let ?ms2 = "all_members (std_hash impl2) fs h files2"
  have eq: "mset ?ms2 = mset ms" using mset_all_members[OF assms(7)] assms(5) ms(1) by simp
  then have "length ?ms2 = length ms" by (metis size_mset)
  with ms(2) have "map_of (fst (find_duplicates impl2 fs files2 out2)) h = Some ?ms2"
    using map_of_find_duplicates[OF assms(3,4), of fs files2 out2 h]
      sizes_match_mset[OF assms(7), of fs] assms(6) by simp
  then have "(h, ?ms2) \<in> set (fst (find_duplicates impl2 fs files2 out2))" by (rule map_of_SomeD)
  then have "(h, mset ?ms2) \<in> duplicate_set (fst (find_duplicates impl2 fs files2 out2))"
    by (force simp: duplicate_set_def)
  with eq x show "x \<in> duplicate_set (fst (find_duplicates impl2 fs files2 out2))" by simp
qed

subsection \<open>No path occurs twice among the groups\<close>

lemma group_paths_Cons: "group_paths ((h, ms) # D) = map path ms @ group_paths D"
  by (simp add: group_paths_def)

lemma in_group_paths:
  "p \<in> set (group_paths D) \<longleftrightarrow> (\<exists>h ms m. (h, ms) \<in> set D \<and> m \<in> set ms \<and> p = path m)"
  by (force simp: group_paths_def)

lemma distinct_group_paths:
  assumes "distinct (map fst D)"
    and "\<And>h ms. (h, ms) \<in> set D \<Longrightarrow> distinct (map path ms)"
    and "\<And>h ms m. (h, ms) \<in> set D \<Longrightarrow> m \<in> set ms \<Longrightarrow> key (path m) = h"
  shows "distinct (group_paths D)"
  using assms
proof (induction D)
  case Nil
  show ?case by (simp add: group_paths_def)
next
  case (Cons g D)
  obtain h ms where g: "g = (h, ms)" by (cases g)
  have h1: "h \<notin> fst ` set D" using Cons.prems(1) g by simp
  have h2: "distinct (map path ms)" using Cons.prems(2)[of h ms] g by simp
  have "p \<notin> set (group_paths D)" if "p \<in> set (map path ms)" for p
  proof
    assume "p \<in> set (group_paths D)"
    then obtain h' ms' m' where m': "(h', ms') \<in> set D" "m' \<in> set ms'" "p = path m'"
      unfolding in_group_paths by blast
    have "key p = h'" using Cons.prems(3)[of h' ms' m'] m' by simp
    moreover from that obtain m where "m \<in> set ms" "p = path m" by auto
    then have "key p = h" using Cons.prems(3)[of h ms m] g by simp
    moreover have "h' \<in> fst ` set D" using m'(1) by (rule rev_image_eqI) simp
    ultimately show False using h1 by simp
  qed
  then have "set (map path ms) \<inter> set (group_paths D) = {}" by blast
  moreover have "distinct (group_paths D)"
  proof (rule Cons.IH)
    show "distinct (map fst D)" using Cons.prems(1) by simp
    show "distinct (map path ms')" if "(h', ms') \<in> set D" for h' ms'
      using Cons.prems(2)[of h' ms'] that by simp
    show "key (path m) = h'" if "(h', ms') \<in> set D" "m \<in> set ms'" for h' ms' m
      using Cons.prems(3)[of h' ms' m] that by simp
  qed
  ultimately show ?case using h2 g by (simp add: group_paths_Cons)
qed

lemma find_duplicates_distinct_paths:
  assumes "distinct (map path files)"
  shows "distinct (group_paths (fst (find_duplicates impl fs files out)))"
proof (rule distinct_group_paths[where key = "\<lambda>p. case generate_file_hash (std_hash impl) fs p of
      Inr h \<Rightarrow> h | Inl _ \<Rightarrow> []"])
  show "distinct (map fst (fst (find_duplicates impl fs files out)))"
    by (rule find_duplicates_distinct_keys)
next
  fix h ms assume g: "(h, ms) \<in> set (fst (find_duplicates impl fs files out))"
  have "exact_group (std_hash impl) fs files (h, ms)"
    using find_duplicates_exact[of impl fs files out] g by (rule bspec)
  then obtain sz where
    "ms = digest_members (std_hash impl) fs sz h (filter (\<lambda>f. size' f = sz) files)"
    unfolding exact_group_def by auto
  then have "map path ms = map path (filter (\<lambda>f. generate_file_hash (std_hash impl) fs (path f) = Inr h)
      (filter (\<lambda>f. size' f = sz) files))"
    by (simp add: digest_members_def comp_def)
  then show "distinct (map path ms)" using assms by (simp add: distinct_map_filter)
next
  fix h ms m assume g: "(h, ms) \<in> set (fst (find_duplicates impl fs files out))" and m: "m \<in> set ms"
  have "uniform_group (std_hash impl) fs files (h, ms)"
    using find_duplicates_members[of impl fs files out] g by (rule bspec)
  with m have "generate_file_hash (std_hash impl) fs (path m) = Inr h"
    unfolding uniform_group_def member_of_def by auto
  then show "(case generate_file_hash (std_hash impl) fs (path m) of Inr h \<Rightarrow> h | Inl _ \<Rightarrow> []) = h"
    by simp
qed

lemma find_files_distinct_paths:
  assumes "distinct (map fst (regular_files directory))"
  shows "distinct (map path (fst (find_files directory out)))"
proof -
  from find_files_prefix obtain found where
    f: "fst (find_files directory out) = map catalogued found" "prefix found (regular_files directory)"
    by blast
  from f(2) obtain rest where "regular_files directory = found @ rest" by (auto simp: prefix_def)
  with assms have "distinct (map fst found)" by simp
  moreover have "map path (map catalogued found) = map fst found"
    by (simp add: catalogued_def comp_def)
  ultimately show ?thesis unfolding f(1) by (simp only:)
qed

subsection \<open>What is reported before the groups are handled\<close>

lemma no_group_lines_append:
  "no_group_lines (xs @ ys) \<longleftrightarrow> no_group_lines xs \<and> no_group_lines ys"
  by (auto simp: no_group_lines_def)

lemma find_files_loop_out:
  "\<exists>new. snd (find_files_loop steps (files, out)) = out @ new \<and> no_group_lines new"
proof (induction steps "(files, out)" arbitrary: files out rule: find_files_loop.induct)
  case (1 files out)
  have "snd (find_files_loop [] (files, out)) = out @ [] \<and> no_group_lines []"
    by (simp add: no_group_lines_def)
  then show ?case by blast
next
  case (2 e rest files out)
  have "snd (find_files_loop (IncrementThrows e # rest) (files, out)) = out @ [FilesystemErrorMsg e]
     \<and> no_group_lines [FilesystemErrorMsg e]"
    by (simp add: no_group_lines_def)
  then show ?case by blast
next
  case (3 p rest files out)
  have "snd (find_files_loop (Entry (StatusFailure p) # rest) (files, out))
       = out @ [FilesystemErrorMsg (filesystem_error ''status'' [p])]
     \<and> no_group_lines [FilesystemErrorMsg (filesystem_error ''status'' [p])]"
    by (simp add: no_group_lines_def)
  then show ?case by blast
next
  case (5 p rest files out)
  then obtain new where "snd (find_files_loop rest (files, out @ [ErrorAccessing p]))
      = (out @ [ErrorAccessing p]) @ new" "no_group_lines new" by blast
  then have "snd (find_files_loop (Entry (RegularFile p None) # rest) (files, out))
      = out @ (ErrorAccessing p # new) \<and> no_group_lines (ErrorAccessing p # new)"
    by (simp add: no_group_lines_def)
  then show ?case by blast
qed simp_all

lemma find_files_out:
  "\<exists>new. snd (find_files directory out) = out @ new \<and> no_group_lines new"
  unfolding find_files_def by (rule find_files_loop_out)

lemma hash_group_out:
  "\<exists>new. snd (hash_group H fs sz bucket (hg, out)) = out @ new \<and> no_group_lines new"
proof (induction bucket arbitrary: hg out)
  case Nil
  have "snd (hash_group H fs sz [] (hg, out)) = out @ [] \<and> no_group_lines []"
    by (simp add: no_group_lines_def)
  then show ?case by blast
next
  case (Cons f bucket)
  show ?case
  proof (cases "generate_file_hash H fs (path f)")
    case (Inr h)
    with Cons.IH show ?thesis by simp
  next
    case (Inl e)
    from Cons.IH[of hg "out @ [ErrorProcessing (path f) e]"] obtain new where
      "snd (hash_group H fs sz bucket (hg, out @ [ErrorProcessing (path f) e]))
         = (out @ [ErrorProcessing (path f) e]) @ new" "no_group_lines new" by blast
    with Inl have "snd (hash_group H fs sz (f # bucket) (hg, out))
         = out @ (ErrorProcessing (path f) e # new) \<and> no_group_lines (ErrorProcessing (path f) e # new)"
      by (simp add: no_group_lines_def)
    then show ?thesis by blast
  qed
qed

lemma scan_size_groups_out:
  "\<exists>new. snd (scan_size_groups impl fs sgs (D, out)) = out @ new \<and> no_group_lines new"
proof (induction sgs arbitrary: D out)
  case Nil
  have "snd (scan_size_groups impl fs [] (D, out)) = out @ [] \<and> no_group_lines []"
    by (simp add: no_group_lines_def)
  then show ?case by blast
next
  case (Cons a sgs)
  obtain sz bucket where a: "a = (sz, bucket)" by (cases a)
  show ?case
  proof (cases "length bucket > 1")
    case False
    with Cons.IH a show ?thesis by simp
  next
    case True
    obtain hgs out1 where hg: "hash_group (std_hash impl) fs sz bucket ([], out) = (hgs, out1)"
      by (cases "hash_group (std_hash impl) fs sz bucket ([], out)")
    with hash_group_out[of "std_hash impl" fs sz bucket "[]" out] obtain new1 where
      n1: "out1 = out @ new1" "no_group_lines new1" by auto
    from Cons.IH[of "emit_groups (iterate (hash_order impl) hgs) D" out1] obtain new2 where
      n2: "snd (scan_size_groups impl fs sgs (emit_groups (iterate (hash_order impl) hgs) D, out1))
            = out1 @ new2" "no_group_lines new2" by blast
    have "snd (scan_size_groups impl fs (a # sgs) (D, out)) = out @ (new1 @ new2)
        \<and> no_group_lines (new1 @ new2)"
      using a True hg n1 n2 by (simp add: no_group_lines_append)
    then show ?thesis by blast
  qed
qed

lemma find_duplicates_out:
  "\<exists>new. snd (find_duplicates impl fs files out) = out @ new \<and> no_group_lines new"
  unfolding find_duplicates_def by (rule scan_size_groups_out)

lemma handle_duplicates_handled:
  assumes "sort_contract (std_sort impl)" and "iteration_order (hash_order impl)"
    and "distinct (map fst duplicates)" and "distinct (group_paths duplicates)"
    and "handle_duplicates impl duplicates action (fs, out) = (e, fs', out')"
  shows "\<exists>new. out' = out @ new \<and> handled (group_paths duplicates) fs fs' new"
proof -
  let ?gs = "iterate (hash_order impl) duplicates"
  have d: "distinct (group_paths ?gs)"
    using group_paths_iterate(1)[OF assms(2,3)] assms(4) by simp
  have s: "set (group_paths ?gs) = set (group_paths duplicates)"
    by (rule group_paths_iterate(2)[OF assms(2,3)])
  from handle_groups_handled[OF assms(1) d, of action fs out e fs' out'] assms(5)
  obtain new where "out' = out @ new" "handled (group_paths ?gs) fs fs' new"
    by (auto simp: handle_duplicates_def)
  then have "out' = out @ new \<and> handled (group_paths duplicates) fs fs' new"
    using s by (simp add: handled_def)
  then show ?thesis by blast
qed

lemma main_try_handled:
  assumes "sort_contract (std_sort impl)" and "iteration_order (hash_order impl)"
    and "distinct (map fst (regular_files d))"
    and "main_try impl directory action d fs = (e, fs', out')"
  shows "\<exists>pre new ps. out' = pre @ new \<and> no_group_lines pre \<and> handled ps fs fs' new"
proof -
  obtain files out1 where ff: "find_files d [ScanningDirectory directory] = (files, out1)"
    by (cases "find_files d [ScanningDirectory directory]")
  obtain duplicates out2 where fd: "find_duplicates impl fs files
      (out1 @ [FoundFiles (length files), LookingForDuplicates]) = (duplicates, out2)"
    by (cases "find_duplicates impl fs files (out1 @ [FoundFiles (length files), LookingForDuplicates])")
  from find_files_out[of d "[ScanningDirectory directory]"] ff
  obtain new1 where n1: "out1 = [ScanningDirectory directory] @ new1" "no_group_lines new1" by auto
  from find_duplicates_out[of impl fs files "out1 @ [FoundFiles (length files), LookingForDuplicates]"] fd
  obtain new2 where n2: "out2 = (out1 @ [FoundFiles (length files), LookingForDuplicates]) @ new2"
    "no_group_lines new2" by auto
  have pre: "no_group_lines out2"
    using n1 n2 by (simp add: no_group_lines_append) (simp add: no_group_lines_def)
  show ?thesis
  proof (cases "duplicates = []")
    case True
    with assms(4) ff fd have "fs' = fs" "out' = out2 @ [NoDuplicatesFound]"
      by (simp_all add: main_try_def)
    then have "out' = (out2 @ [NoDuplicatesFound]) @ [] \<and> no_group_lines (out2 @ [NoDuplicatesFound])
        \<and> handled [] fs fs' []"
      using pre by (simp add: no_group_lines_def handled_def frame_refl)
    then show ?thesis by blast
  next
    case False
    with assms(4) ff fd have h: "handle_duplicates impl duplicates action
        (fs, out2 @ [FoundGroups (length duplicates)]) = (e, fs', out')"
      by (simp add: main_try_def)
    have "distinct (map path files)"
      using find_files_distinct_paths[OF assms(3), of "[ScanningDirectory directory]"] ff by simp
    then have dp: "distinct (group_paths duplicates)"
      using find_duplicates_distinct_paths[of files impl fs
          "out1 @ [FoundFiles (length files), LookingForDuplicates]"] fd by simp
    have dk: "distinct (map fst duplicates)"
      using find_duplicates_distinct_keys[of impl fs files
          "out1 @ [FoundFiles (length files), LookingForDuplicates]"] fd by simp
    from handle_duplicates_handled[OF assms(1,2) dk dp h] obtain new where
      "out' = (out2 @ [FoundGroups (length duplicates)]) @ new"
      "handled (group_paths duplicates) fs fs' new" by blast
    moreover have "no_group_lines (out2 @ [FoundGroups (length duplicates)])"
      using pre by (simp add: no_group_lines_def)
    ultimately show ?thesis by blast
  qed
qed

lemma handled_whole_output:
  assumes "no_group_lines pre" and "handled ps fs fs' new" and "no_group_lines post"
  shows "(\<forall>p \<in> set (reported_originals (pre @ new @ post)). entries fs' p = entries fs p) \<and>
         (\<forall>p. entries fs' p \<noteq> entries fs p \<longrightarrow> p \<in> set (reported_duplicates (pre @ new @ post)))"
  using assms by (auto simp: no_group_lines_def handled_def frame_def)

subsection \<open>The exceptions that leave \<open>handle_duplicates\<close>\<close>

lemma handle_group_raises:
  assumes "sort_contract (std_sort impl)" and "files \<noteq> []"
    and "handle_group impl action (h, files) (fs, out) = (Some e, fs', out')"
  shows "\<exists>p \<in> set (map path files). e = filesystem_error ''last_write_time'' [p]"
proof (cases "sort_by_last_write_time impl fs (map path files)")
  case (Inl e')
  with assms(3) have e: "e' = e" by (simp add: handle_group_unfold)
  from Inl obtain e'' where f: "first_failure fs (map path files) = Some e''" "e'' = e'"
    by (auto simp: sort_by_last_write_time_def split: if_splits option.splits)
  from first_failure_Some[OF f(1)] obtain p where
    "p \<in> set (map path files)" "last_write_time fs p = Inl e''" by blast
  with last_write_time_error[of fs p e''] e f(2) show ?thesis by blast
next
  case (Inr sorted_files)
  from sort_by_last_write_time_sorted(1)[OF assms(1) Inr]
  have "mset sorted_files = mset (map path files)" .
  with assms(2) have "sorted_files \<noteq> []" by auto
  then obtain original rest where "sorted_files = original # rest" by (cases sorted_files) auto
  with Inr assms(3) show ?thesis by (simp add: handle_group_unfold split: prod.splits)
qed

lemma handle_groups_raises:
  assumes "sort_contract (std_sort impl)" and "\<forall>g \<in> set gs. snd g \<noteq> []"
    and "handle_groups impl action gs (fs, out) = (Some e, fs', out')"
  shows "\<exists>p \<in> set (group_paths gs). e = filesystem_error ''last_write_time'' [p]"
  using assms(2,3)
proof (induction gs arbitrary: fs out)
  case Nil
  then show ?case by simp
next
  case (Cons g gs)
  obtain h files where g: "g = (h, files)" by (cases g)
  obtain e1 fs1 out1 where r: "handle_group impl action (h, files) (fs, out) = (e1, fs1, out1)"
    using prod_cases3 by blast
  show ?case
  proof (cases e1)
    case None
    with Cons.prems(2) g r have "handle_groups impl action gs (fs1, out1) = (Some e, fs', out')"
      by simp
    with Cons.IH Cons.prems(1) have "\<exists>p \<in> set (group_paths gs). e = filesystem_error ''last_write_time'' [p]"
      by simp
    then show ?thesis using g by (auto simp: group_paths_Cons)
  next
    case (Some e')
    with Cons.prems(2) g r have "e' = e" by simp
    with Some r have "handle_group impl action (h, files) (fs, out) = (Some e, fs1, out1)" by simp
    from handle_group_raises[OF assms(1) _ this] Cons.prems(1) g
    show ?thesis by (auto simp: group_paths_Cons)
  qed
qed


subsection \<open>Hard-link mode\<close>

lemma process_duplicate_hardlink:
  "process_duplicate ''--hardlink'' original p (fs, out) =
     (fs\<lparr>entries := (entries fs)(p := fst (hardlink_result fs original p))\<rparr>,
      out @ [Duplicate p, snd (hardlink_result fs original p)])"
  by (auto simp: process_duplicate_def hardlink_result_def fs_remove_def create_hard_link_def
      split: option.splits)

lemma hardlink_result_update:
  assumes "original \<noteq> p"
  shows "hardlink_result (fs\<lparr>entries := (entries fs)(p := fst (hardlink_result fs original p))\<rparr>)
           original q = hardlink_result fs original q"
  using assms by (auto simp: hardlink_result_def)

lemma process_duplicates_hardlink:
  assumes "original \<notin> set ps"
  shows "\<exists>fs'. process_duplicates ''--hardlink'' original ps (fs, out) =
           (fs', out @ concat (map (\<lambda>p. [Duplicate p, snd (hardlink_result fs original p)]) ps)) \<and>
         (\<forall>p \<in> set ps. entries fs' p = fst (hardlink_result fs original p)) \<and>
         (\<forall>q. q \<notin> set ps \<longrightarrow> entries fs' q = entries fs q) \<and>
         remove_denied fs' = remove_denied fs \<and> link_denied fs' = link_denied fs"
  using assms
proof (induction ps arbitrary: fs out)
  case Nil
  show ?case by simp
next
  case (Cons p ps)
  let ?fs1 = "fs\<lparr>entries := (entries fs)(p := fst (hardlink_result fs original p))\<rparr>"
  let ?out1 = "out @ [Duplicate p, snd (hardlink_result fs original p)]"
  have ne: "original \<noteq> p" and notin: "original \<notin> set ps" using Cons.prems by auto
  have same: "hardlink_result ?fs1 original q = hardlink_result fs original q" for q
    using ne by (rule hardlink_result_update)
  from Cons.IH[OF notin, of ?fs1 ?out1] obtain fs' where
    r: "process_duplicates ''--hardlink'' original ps (?fs1, ?out1) =
          (fs', ?out1 @ concat (map (\<lambda>p. [Duplicate p, snd (hardlink_result ?fs1 original p)]) ps))"
    and e: "\<forall>q \<in> set ps. entries fs' q = fst (hardlink_result ?fs1 original q)"
    and f: "\<forall>q. q \<notin> set ps \<longrightarrow> entries fs' q = entries ?fs1 q"
    and d: "remove_denied fs' = remove_denied ?fs1" "link_denied fs' = link_denied ?fs1"
    by blast
  have 1: "process_duplicates ''--hardlink'' original (p # ps) (fs, out) =
     (fs', out @ concat (map (\<lambda>p. [Duplicate p, snd (hardlink_result fs original p)]) (p # ps)))"
    using r by (simp add: process_duplicate_hardlink same)
  have 2: "entries fs' q = fst (hardlink_result fs original q)" if "q \<in> set (p # ps)" for q
  proof (cases "q \<in> set ps")
    case True
    with e same show ?thesis by simp
  next
    case False
    with that have "q = p" by simp
    with False f show ?thesis by simp
  qed
  have 3: "entries fs' q = entries fs q" if "q \<notin> set (p # ps)" for q
    using that f by simp
  from 1 2 3 d show ?case by simp
qed

lemma handle_group_hardlink:
  assumes "sort_contract (std_sort impl)" and "distinct (map path files)"
    and "sort_by_last_write_time impl fs (map path files) = Inr (original # rest)"
  shows "\<exists>fs'. handle_group impl ''--hardlink'' (h, files) (fs, out) =
           (None, fs', out @ hardlink_report fs h (length files) original rest) \<and>
         mset (original # rest) = mset (map path files) \<and>
         entries fs' original = entries fs original \<and>
         (\<forall>p \<in> set rest. entries fs' p = fst (hardlink_result fs original p)) \<and>
         frame rest fs fs'"
proof -
  from sort_by_last_write_time_sorted(1)[OF assms(1,3)]
  have m: "mset (original # rest) = mset (map path files)" .
  then have "distinct (original # rest)" using assms(2) by (metis mset_eq_imp_distinct_iff)
  then have notin: "original \<notin> set rest" by simp
  from process_duplicates_hardlink[OF notin, of fs
      "out @ [DuplicateGroup (length files), HashLine h, Original original]"]
  obtain fs' where
    r: "process_duplicates ''--hardlink'' original rest
          (fs, out @ [DuplicateGroup (length files), HashLine h, Original original]) =
        (fs', (out @ [DuplicateGroup (length files), HashLine h, Original original]) @
              concat (map (\<lambda>p. [Duplicate p, snd (hardlink_result fs original p)]) rest))"
    and e: "\<forall>p \<in> set rest. entries fs' p = fst (hardlink_result fs original p)"
    and f: "\<forall>q. q \<notin> set rest \<longrightarrow> entries fs' q = entries fs q"
    and d: "remove_denied fs' = remove_denied fs" "link_denied fs' = link_denied fs"
    by blast
  have "handle_group impl ''--hardlink'' (h, files) (fs, out) =
           (None, fs', out @ hardlink_report fs h (length files) original rest)"
    using assms(3) r by (simp add: handle_group_unfold hardlink_report_def)
  moreover have "entries fs' original = entries fs original" using f notin by simp
  moreover have "frame rest fs fs'" using f d by (simp add: frame_def)
  ultimately show ?thesis using m e by blast
qed


lemma link_chain_unchanged:
  "(\<And>q. q \<in> set (link_chain n es p) \<Longrightarrow> es' q = es q) \<Longrightarrow> link_chain n es' p = link_chain n es p"
proof (induction n arbitrary: p)
  case 0
  show ?case by simp
next
  case (Suc n)
  have p: "es' p = es p" using Suc.prems by simp
  show ?case
  proof (cases "es p")
    case None
    with p show ?thesis by simp
  next
    case (Some x)
    show ?thesis
    proof (cases x)
      case (Regular f)
      with Some p show ?thesis by simp
    next
      case (Symlink q)
      have "link_chain n es' q = link_chain n es q"
        using Suc.prems Some Symlink by (intro Suc.IH) simp
      with Some Symlink p show ?thesis by simp
    qed
  qed
qed

lemma leads_through_regular: "entries fs p = Some (Regular f) \<Longrightarrow> leads_through fs p = [p]"
  by (simp add: leads_through_def numeral_eq_Suc)

lemma leads_through_unfold: "leads_through fs p = p # tl (leads_through fs p)"
  by (simp add: leads_through_def numeral_eq_Suc)

lemma frame_independent:
  assumes "frame rest fs fs1" and "q \<notin> set rest"
    and "set (tl (leads_through fs q)) \<inter> set rest = {}"
  shows "resolve fs1 q = resolve fs q" and "leads_through fs1 q = leads_through fs q"
    and "last_write_time fs1 q = last_write_time fs q"
proof -
  have same: "entries fs1 r = entries fs r" if "r \<in> set (leads_through fs q)" for r
  proof -
    from that leads_through_unfold[of fs q] have "r = q \<or> r \<in> set (tl (leads_through fs q))"
      by (metis set_ConsD)
    with assms(2,3) have "r \<notin> set rest" by auto
    with assms(1) show ?thesis by (simp add: frame_def)
  qed
  then show r: "resolve fs1 q = resolve fs q" by (rule resolve_unchanged)
  from same show "leads_through fs1 q = leads_through fs q"
    unfolding leads_through_def by (intro link_chain_unchanged) simp
  from r show "last_write_time fs1 q = last_write_time fs q" by (simp add: last_write_time_def)
qed

lemma first_failure_append:
  "first_failure fs (ps @ qs) = None \<longleftrightarrow> first_failure fs ps = None \<and> first_failure fs qs = None"
  by (auto simp: first_failure_None)

lemma sort_by_last_write_time_succeeds:
  assumes "sort_contract (std_sort impl)" and "ps \<noteq> []" and "first_failure fs ps = None"
  shows "\<exists>original rest. sort_by_last_write_time impl fs ps = Inr (original # rest)"
proof -
  have "\<exists>sorted_files. sort_by_last_write_time impl fs ps = Inr sorted_files"
    using assms(3) by (simp add: sort_by_last_write_time_def)
  then obtain sorted_files where s: "sort_by_last_write_time impl fs ps = Inr sorted_files" ..
  from sort_by_last_write_time_sorted(1)[OF assms(1) s] assms(2) have "sorted_files \<noteq> []" by auto
  then obtain original rest where "sorted_files = original # rest" by (cases sorted_files) auto
  with s show ?thesis by blast
qed

lemma hardlink_result_frame:
  assumes "frame rest fs fs1" and "original \<notin> set rest" and "p \<notin> set rest"
  shows "hardlink_result fs1 original p = hardlink_result fs original p"
  using assms by (simp add: hardlink_result_def frame_def)

lemma hardlink_report_frame:
  assumes "frame rest fs fs1" and "original \<notin> set rest" and "set ps \<inter> set rest = {}"
  shows "hardlink_report fs1 h n original ps = hardlink_report fs h n original ps"
proof -
  have "hardlink_result fs1 original p = hardlink_result fs original p" if "p \<in> set ps" for p
    using that assms by (intro hardlink_result_frame[OF assms(1)]) auto
  then show ?thesis by (simp add: hardlink_report_def cong: map_cong)
qed

lemma handle_groups_hardlink:
  assumes "sort_contract (std_sort impl)" and "distinct (group_paths gs)"
    and "\<forall>g \<in> set gs. snd g \<noteq> []"
    and "independent_members fs (group_paths gs)"
  shows "\<exists>fs' new. handle_groups impl ''--hardlink'' gs (fs, out) = (None, fs', out @ new) \<and>
           frame (group_paths gs) fs fs' \<and>
           (\<forall>g \<in> set gs. \<exists>original rest.
              mset (original # rest) = mset (map path (snd g)) \<and>
              sublist (hardlink_report fs (fst g) (length (snd g)) original rest) new \<and>
              entries fs' original = entries fs original \<and>
              (\<forall>p \<in> set rest. entries fs' p = fst (hardlink_result fs original p)))"
  using assms(2,3,4)
proof (induction gs arbitrary: fs out)
  case Nil
  show ?case by (simp add: frame_refl group_paths_def)
next
  case (Cons g gs)
  obtain h files where g: "g = (h, files)" by (cases g)
  let ?ps = "map path files"
  have paths: "group_paths (g # gs) = ?ps @ group_paths gs" using g by (simp add: group_paths_Cons)
  have dist: "distinct ?ps" "distinct (group_paths gs)" "set ?ps \<inter> set (group_paths gs) = {}"
    using Cons.prems(1) paths by auto
  have ne: "?ps \<noteq> []" using Cons.prems(2) g by simp
  have ind: "first_failure fs ?ps = None" "first_failure fs (group_paths gs) = None"
    "\<forall>q \<in> set (?ps @ group_paths gs). set (tl (leads_through fs q)) \<inter> set (?ps @ group_paths gs) = {}"
    using Cons.prems(3) paths by (simp_all add: independent_members_def first_failure_append)
  from sort_by_last_write_time_succeeds[OF assms(1) ne ind(1)] obtain original rest where
    s: "sort_by_last_write_time impl fs ?ps = Inr (original # rest)" by blast
  from handle_group_hardlink[OF assms(1) dist(1) s, of h out] obtain fs1 where
    r1: "handle_group impl ''--hardlink'' (h, files) (fs, out) =
           (None, fs1, out @ hardlink_report fs h (length files) original rest)"
    and m: "mset (original # rest) = mset ?ps"
    and o1: "entries fs1 original = entries fs original"
    and e1: "\<forall>p \<in> set rest. entries fs1 p = fst (hardlink_result fs original p)"
    and f1: "frame rest fs fs1"
    by blast
  from m have sub: "set (original # rest) = set ?ps" by (rule mset_eq_setD)
  then have rest_sub: "set rest \<subseteq> set ?ps" by auto
  have later: "q \<notin> set rest" if "q \<in> set (group_paths gs)" for q
    using that dist(3) rest_sub by auto
  have chain: "set (tl (leads_through fs q)) \<inter> set rest = {}" if "q \<in> set (group_paths gs)" for q
  proof -
    from ind(3) that have "set (tl (leads_through fs q)) \<inter> set (?ps @ group_paths gs) = {}" by simp
    with rest_sub show ?thesis by auto
  qed
  have readable: "first_failure fs1 (group_paths gs) = None"
  proof -
    have "\<exists>t. last_write_time fs1 q = Inr t" if "q \<in> set (group_paths gs)" for q
      using frame_independent(3)[OF f1 later[OF that] chain[OF that]] ind(2) that
      by (simp add: first_failure_None)
    then show ?thesis by (simp add: first_failure_None)
  qed
  have apart: "set (tl (leads_through fs1 q)) \<inter> set (group_paths gs) = {}"
    if "q \<in> set (group_paths gs)" for q
  proof -
    from ind(3) that have "set (tl (leads_through fs q)) \<inter> set (?ps @ group_paths gs) = {}" by simp
    then have "set (tl (leads_through fs q)) \<inter> set (group_paths gs) = {}" by auto
    with frame_independent(2)[OF f1 later[OF that] chain[OF that]] show ?thesis by simp
  qed
  have ind1: "independent_members fs1 (group_paths gs)"
    using readable apart by (simp add: independent_members_def)
  have ne1: "\<forall>g \<in> set gs. snd g \<noteq> []" using Cons.prems(2) by simp
  from Cons.IH[OF dist(2) ne1 ind1, of "out @ hardlink_report fs h (length files) original rest"]
  obtain fs' new where
    r2: "handle_groups impl ''--hardlink'' gs
           (fs1, out @ hardlink_report fs h (length files) original rest) =
         (None, fs', (out @ hardlink_report fs h (length files) original rest) @ new)"
    and f2: "frame (group_paths gs) fs1 fs'"
    and all: "\<forall>g \<in> set gs. \<exists>original rest.
              mset (original # rest) = mset (map path (snd g)) \<and>
              sublist (hardlink_report fs1 (fst g) (length (snd g)) original rest) new \<and>
              entries fs' original = entries fs1 original \<and>
              (\<forall>p \<in> set rest. entries fs' p = fst (hardlink_result fs1 original p))"
    by blast
  let ?new = "hardlink_report fs h (length files) original rest @ new"
  have run: "handle_groups impl ''--hardlink'' (g # gs) (fs, out) = (None, fs', out @ ?new)"
    using g r1 r2 by simp
  have fr: "frame (group_paths (g # gs)) fs fs'"
  proof -
    from frame_trans[OF f1 f2] have "frame (rest @ group_paths gs) fs fs'" .
    then show ?thesis using rest_sub paths by (auto simp: frame_def)
  qed
  have first: "\<exists>original rest.
              mset (original # rest) = mset (map path (snd g)) \<and>
              sublist (hardlink_report fs (fst g) (length (snd g)) original rest) ?new \<and>
              entries fs' original = entries fs original \<and>
              (\<forall>p \<in> set rest. entries fs' p = fst (hardlink_result fs original p))"
  proof -
    have keep: "entries fs' q = entries fs1 q" if "q \<in> set ?ps" for q
      using that f2 dist(3) by (auto simp: frame_def)
    have "original \<in> set ?ps" using sub by auto
    with keep o1 have 1: "entries fs' original = entries fs original" by simp
    have 2: "\<forall>p \<in> set rest. entries fs' p = fst (hardlink_result fs original p)"
      using keep e1 rest_sub by auto
    have 3: "sublist (hardlink_report fs h (length files) original rest) ?new" by simp
    from m 1 2 3 show ?thesis using g by auto
  qed
  have others: "\<exists>original rest.
              mset (original # rest) = mset (map path (snd g')) \<and>
              sublist (hardlink_report fs (fst g') (length (snd g')) original rest) ?new \<and>
              entries fs' original = entries fs original \<and>
              (\<forall>p \<in> set rest. entries fs' p = fst (hardlink_result fs original p))"
    if g': "g' \<in> set gs" for g'
  proof -
    from all g' obtain o' r' where
      m': "mset (o' # r') = mset (map path (snd g'))"
      and s': "sublist (hardlink_report fs1 (fst g') (length (snd g')) o' r') new"
      and k': "entries fs' o' = entries fs1 o'"
      and e': "\<forall>p \<in> set r'. entries fs' p = fst (hardlink_result fs1 o' p)"
      by blast
    from m' have "set (o' # r') = set (map path (snd g'))" by (rule mset_eq_setD)
    moreover have "set (map path (snd g')) \<subseteq> set (group_paths gs)"
      using g' by (auto simp: group_paths_def)
    ultimately have mem: "set (o' # r') \<subseteq> set (group_paths gs)" by simp
    then have o_out: "o' \<notin> set rest" and r_out: "set r' \<inter> set rest = {}"
      using later by auto
    have rep: "hardlink_report fs1 (fst g') (length (snd g')) o' r'
                 = hardlink_report fs (fst g') (length (snd g')) o' r'"
      using f1 o_out r_out by (rule hardlink_report_frame)
    have res: "hardlink_result fs1 o' p = hardlink_result fs o' p" if "p \<in> set r'" for p
      using f1 o_out that r_out by (intro hardlink_result_frame) auto
    have 1: "entries fs' o' = entries fs o'" using k' f1 o_out by (simp add: frame_def)
    have 2: "\<forall>p \<in> set r'. entries fs' p = fst (hardlink_result fs o' p)" using e' res by simp
    have 3: "sublist (hardlink_report fs (fst g') (length (snd g')) o' r') ?new"
      using s' rep by (simp add: sublist_append)
    from m' 1 2 3 show ?thesis by blast
  qed
  from first others have
    "\<forall>g' \<in> set (g # gs). \<exists>original rest.
              mset (original # rest) = mset (map path (snd g')) \<and>
              sublist (hardlink_report fs (fst g') (length (snd g')) original rest) ?new \<and>
              entries fs' original = entries fs original \<and>
              (\<forall>p \<in> set rest. entries fs' p = fst (hardlink_result fs original p))"
    by simp
  with run fr show ?case by blast
qed

lemma independent_members_cong:
  "set ps = set qs \<Longrightarrow> independent_members fs ps = independent_members fs qs"
  by (simp add: independent_members_def first_failure_None)

lemma handle_duplicates_hardlink:
  assumes "sort_contract (std_sort impl)" and "iteration_order (hash_order impl)"
    and "distinct (map fst duplicates)" and "distinct (group_paths duplicates)"
    and "\<forall>g \<in> set duplicates. snd g \<noteq> []"
    and "independent_members fs (group_paths duplicates)"
  shows "\<exists>fs' new. handle_duplicates impl duplicates ''--hardlink'' (fs, out) = (None, fs', out @ new) \<and>
           frame (group_paths duplicates) fs fs' \<and>
           (\<forall>g \<in> set duplicates. \<exists>original rest.
              mset (original # rest) = mset (map path (snd g)) \<and>
              sublist (hardlink_report fs (fst g) (length (snd g)) original rest) new \<and>
              entries fs' original = entries fs original \<and>
              (\<forall>p \<in> set rest. entries fs' p = fst (hardlink_result fs original p)))"
proof -
  let ?gs = "iterate (hash_order impl) duplicates"
  have s: "set ?gs = set duplicates"
    using mset_iterate[OF assms(2,3)] by (rule mset_eq_setD)
  note p = group_paths_iterate[OF assms(2,3)]
  have 1: "distinct (group_paths ?gs)" using p(1) assms(4) by simp
  have 2: "\<forall>g \<in> set ?gs. snd g \<noteq> []" using s assms(5) by simp
  have 3: "independent_members fs (group_paths ?gs)"
    using independent_members_cong[OF p(2), of fs] assms(6) by simp
  from handle_groups_hardlink[OF assms(1) 1 2 3, of out] obtain fs' new where
    r: "handle_groups impl ''--hardlink'' ?gs (fs, out) = (None, fs', out @ new)"
    and f: "frame (group_paths ?gs) fs fs'"
    and a: "\<forall>g \<in> set ?gs. \<exists>original rest.
              mset (original # rest) = mset (map path (snd g)) \<and>
              sublist (hardlink_report fs (fst g) (length (snd g)) original rest) new \<and>
              entries fs' original = entries fs original \<and>
              (\<forall>p \<in> set rest. entries fs' p = fst (hardlink_result fs original p))"
    by blast
  have "handle_duplicates impl duplicates ''--hardlink'' (fs, out) = (None, fs', out @ new)"
    using r by (simp add: handle_duplicates_def)
  moreover have "frame (group_paths duplicates) fs fs'" using f p(2) by (simp add: frame_def)
  ultimately show ?thesis using a s by auto
qed

lemma handle_duplicates_raises:
  assumes "sort_contract (std_sort impl)" and "\<forall>g \<in> set duplicates. snd g \<noteq> []"
    and "fst (handle_duplicates impl duplicates action (fs, out)) = Some e"
  shows "\<exists>p. e = filesystem_error ''last_write_time'' [p]"
proof -
  let ?gs = "iterate (hash_order impl) duplicates"
  obtain fs' out' where r: "handle_groups impl action ?gs (fs, out) = (Some e, fs', out')"
    using assms(3) by (cases "handle_groups impl action ?gs (fs, out)") (auto simp: handle_duplicates_def)
  have "snd g \<noteq> []" if "g \<in> set ?gs" for g
  proof -
    from that have "(fst g, snd g) \<in> set duplicates" using iterate_subset[of "fst g" "snd g"] by simp
    with assms(2) show ?thesis by auto
  qed
  then have "\<forall>g \<in> set ?gs. snd g \<noteq> []" by blast
  from handle_groups_raises[OF assms(1) this r] show ?thesis by blast
qed
section \<open>The claims\<close>







text \<open>
  C3 (as the code has it). For every duplicate group of two or more files that is
  handled, whatever \<open>std::sort\<close> is within its contract, the file kept as the original is
  a member of the group, every modification time of the group can be read, and none is
  older than that of the original; when one member is strictly older than all others,
  it is the original. Which of several oldest members is kept is left to the sort.
\<close>

theorem kept_is_oldest:
  assumes "sort_contract (std_sort impl)" and "length files \<ge> 2"
    and "handle_group impl action (h, files) (fs, out) = (None, fs', out')"
  shows "\<exists>original t0 new.
           original \<in> set (map path files) \<and>
           out' = out @ [DuplicateGroup (length files), HashLine h, Original original] @ new \<and>
           reported_originals new = [] \<and>
           last_write_time fs original = Inr t0 \<and>
           (\<forall>q \<in> set (map path files). \<exists>t. last_write_time fs q = Inr t \<and> t0 \<le> t) \<and>
           (\<forall>q \<in> set (map path files).
              (\<forall>q' \<in> set (map path files). q' \<noteq> q \<longrightarrow> mtime fs q < mtime fs q') \<longrightarrow> original = q)"
proof -
  from handle_group_kept[OF assms(3)] obtain original rest new where
    s: "sort_by_last_write_time impl fs (map path files) = Inr (original # rest)"
    and o: "out' = out @ [DuplicateGroup (length files), HashLine h, Original original] @ new"
      "reported_originals new = []"
    by blast
  note srt = sort_by_last_write_time_sorted[OF assms(1) s]
  have len: "length (map path files) \<ge> 2" using assms(2) by simp
  from srt(1) have set_eq: "set (original # rest) = set (map path files)" by (rule mset_eq_setD)
  then have mem: "original \<in> set (map path files)" by auto
  from srt(2)[OF len] have readable: "\<forall>p \<in> set (map path files). \<exists>t. last_write_time fs p = Inr t" .
  have time: "last_write_time fs q = Inr (mtime fs q)" if "q \<in> set (map path files)" for q
    using readable that by (auto simp: mtime_def)
  from srt(3) len have "sorted (map (mtime fs) (original # rest))" by simp
  then have "\<forall>q \<in> set (original # rest). mtime fs original \<le> mtime fs q" by auto
  with set_eq have least: "\<forall>q \<in> set (map path files). mtime fs original \<le> mtime fs q" by simp
  have unique: "original = q"
    if "q \<in> set (map path files)"
      "\<forall>q' \<in> set (map path files). q' \<noteq> q \<longrightarrow> mtime fs q < mtime fs q'" for q
  proof (rule ccontr)
    assume "original \<noteq> q"
    with that mem have "mtime fs q < mtime fs original" by blast
    with least that(1) show False by force
  qed
  have "\<forall>q \<in> set (map path files). \<exists>t. last_write_time fs q = Inr t \<and> mtime fs original \<le> t"
    using time least by blast
  with mem o time[OF mem] unique show ?thesis by blast
qed

theorem kept_is_oldest_witness:
  "sort_contract (std_sort example_impl) \<and> length (snd example_group) \<ge> 2 \<and>
   handle_group example_impl ''--list'' example_group (example_fs, []) =
     (None, example_fs,
      [DuplicateGroup 2, HashLine ''5_99162322'', Original ''r/a.txt'', Duplicate ''r/b.txt'']) \<and>
   last_write_time example_fs ''r/a.txt'' = Inr 10 \<and>
   last_write_time example_fs ''r/b.txt'' = Inr 20"
proof -
  have 1: "sort_contract (std_sort example_impl)"
    by (simp add: example_impl_def stable_sort_contract)
  have 2: "length (snd example_group) \<ge> 2" by (simp add: example_group_def)
  have 3: "handle_group example_impl ''--list'' (fst example_group, snd example_group) (example_fs, []) =
     (None, example_fs,
      [DuplicateGroup 2, HashLine ''5_99162322'', Original ''r/a.txt'', Duplicate ''r/b.txt''])"
    by (simp add: example_defs run_defs)
  from kept_is_oldest[OF 1 2 3] obtain original t0 where
    o: "original \<in> set (map path (snd example_group))" "last_write_time example_fs original = Inr t0"
      "\<forall>q \<in> set (map path (snd example_group)). \<exists>t. last_write_time example_fs q = Inr t \<and> t0 \<le> t"
    by blast
  have a: "last_write_time example_fs ''r/a.txt'' = Inr 10"
    and b: "last_write_time example_fs ''r/b.txt'' = Inr 20"
    by (simp_all add: example_defs last_write_time_def resolve_def)
  from o have "t0 \<le> 20 \<and> (original = ''r/a.txt'' \<or> original = ''r/b.txt'')"
    using b by (auto simp: example_group_def)
  with 1 2 3 a b show ?thesis by simp
qed

text \<open>
  C3 as stated fails: seventeen files with the same content and the same modification
  time are found in the order \<open>f01\<close> to \<open>f17\<close>. \<open>std::sort\<close> as the GNU library has it
  partitions a range of more than 16 elements; it begins by swapping the middle
  element, the median of three equal ones, to the front, and equal elements are not
  brought back into their order. The file kept is \<open>f09\<close>, not \<open>f01\<close>.
\<close>

theorem tie_break_counterexample:
  "map path (fst (find_files tied_tree [])) = tied_paths \<and>
   map (mtime tied_fs) tied_paths = replicate 17 10 \<and>
   fst (main gnu_impl [''dedup'', ''r''] (Found tied_tree) tied_fs) = Exit 0 \<and>
   snd (snd (main gnu_impl [''dedup'', ''r''] (Found tied_tree) tied_fs)) =
     [ScanningDirectory ''r'', FoundFiles 17, LookingForDuplicates, FoundGroups 1,
      DuplicateGroup 17, HashLine ''1_120'', Original ''r/f09'',
      Duplicate ''r/f17'', Duplicate ''r/f16'', Duplicate ''r/f15'', Duplicate ''r/f14'',
      Duplicate ''r/f13'', Duplicate ''r/f12'', Duplicate ''r/f11'', Duplicate ''r/f10'',
      Duplicate ''r/f01'', Duplicate ''r/f08'', Duplicate ''r/f07'', Duplicate ''r/f06'',
      Duplicate ''r/f05'', Duplicate ''r/f04'', Duplicate ''r/f03'', Duplicate ''r/f02'']"
  by code_simp




text \<open>
  C6 (as the code has it). In every run of \<open>main\<close> on a directory tree in which no path
  occurs twice, whatever the action, the directory entry of every path announced as
  \<open>Original\<close> is at the end of the run what it was at the start (it is neither removed
  nor replaced), and every path whose entry has changed was announced as \<open>Duplicate\<close>.
  What is read at a kept path, content and modification time, is what it was, unless
  the kept path is a symbolic link that leads, at once or through further links, to a
  path announced as \<open>Duplicate\<close>. A kept path that is a file itself reads the same in
  every case.
\<close>

theorem kept_file_untouched:
  assumes "sort_contract (std_sort impl)" and "iteration_order (hash_order impl)"
    and "distinct (map fst (regular_files d))"
    and "main impl argv (Found d) fs = (x, fs', out')"
  shows "(\<forall>p \<in> set (reported_originals out'). entries fs' p = entries fs p) \<and>
         (\<forall>p. entries fs' p \<noteq> entries fs p \<longrightarrow> p \<in> set (reported_duplicates out')) \<and>
         (\<forall>p \<in> set (reported_originals out').
            set (tl (leads_through fs p)) \<inter> set (reported_duplicates out') = {} \<longrightarrow>
            resolve fs' p = resolve fs p \<and> read_file fs' p = read_file fs p \<and>
            last_write_time fs' p = last_write_time fs p) \<and>
         (\<forall>p \<in> set (reported_originals out'). \<forall>f. entries fs p = Some (Regular f) \<longrightarrow>
            resolve fs' p = Some f \<and> read_file fs' p = read_file fs p \<and>
            last_write_time fs' p = last_write_time fs p)"
proof -
  have entry: "(\<forall>p \<in> set (reported_originals out'). entries fs' p = entries fs p) \<and>
         (\<forall>p. entries fs' p \<noteq> entries fs p \<longrightarrow> p \<in> set (reported_duplicates out'))"
  proof (cases "length argv \<ge> 2 \<and> is_directory d")
    case False
    with assms(4) have "fs' = fs" "reported_originals out' = []"
      by (auto simp: main_def split: if_splits)
    then show ?thesis by simp
  next
    case True
    let ?action = "if length argv \<ge> 3 then argv ! 2 else ''--list''"
    obtain e fs1 out1 where t: "main_try impl (argv ! 1) ?action d fs = (e, fs1, out1)"
      using prod_cases3 by blast
    from main_try_handled[OF assms(1,2,3) t] obtain pre new ps where
      h: "out1 = pre @ new" "no_group_lines pre" "handled ps fs fs1 new" by blast
    show ?thesis
    proof (cases e)
      case None
      with assms(4) True t have "fs' = fs1" "out' = pre @ new @ []"
        using h(1) by (simp_all add: main_def)
      with handled_whole_output[OF h(2,3), of "[]"] show ?thesis by (simp add: no_group_lines_def)
    next
      case (Some err)
      with assms(4) True t have "fs' = fs1" "out' = pre @ new @ [TopLevelError err]"
        using h(1) by (simp_all add: main_def)
      with handled_whole_output[OF h(2,3), of "[TopLevelError err]"] show ?thesis
        by (simp add: no_group_lines_def)
    qed
  qed
  have same: "resolve fs' p = resolve fs p"
    if p: "p \<in> set (reported_originals out')"
      and t: "set (tl (leads_through fs p)) \<inter> set (reported_duplicates out') = {}" for p
  proof (rule resolve_unchanged)
    fix q assume q: "q \<in> set (leads_through fs p)"
    show "entries fs' q = entries fs q"
    proof (cases "q = p")
      case True
      with entry p show ?thesis by simp
    next
      case False
      with q have "q \<in> set (tl (leads_through fs p))"
        by (simp add: leads_through_def numeral_eq_Suc)
      with t have "q \<notin> set (reported_duplicates out')" by auto
      with entry show ?thesis by auto
    qed
  qed
  have plain: "set (tl (leads_through fs p)) \<inter> set (reported_duplicates out') = {}"
    if "entries fs p = Some (Regular f)" for p f
    using that by (simp add: leads_through_def numeral_eq_Suc)
  have reads: "read_file fs' p = read_file fs p \<and> last_write_time fs' p = last_write_time fs p"
    if "resolve fs' p = resolve fs p" for p
    using that by (simp add: read_file_def last_write_time_def)
  have leads: "resolve fs p = Some f" if "entries fs p = Some (Regular f)" for p f
    using that by (simp add: resolve_def numeral_eq_Suc)
  show ?thesis
  proof (intro conjI ballI allI impI)
    fix p assume "p \<in> set (reported_originals out')"
    with entry show "entries fs' p = entries fs p" by simp
  next
    fix p assume "entries fs' p \<noteq> entries fs p"
    with entry show "p \<in> set (reported_duplicates out')" by simp
  next
    fix p
    assume p: "p \<in> set (reported_originals out')"
      and t: "set (tl (leads_through fs p)) \<inter> set (reported_duplicates out') = {}"
    from same[OF p t] show "resolve fs' p = resolve fs p" .
    from reads[OF same[OF p t]] show "read_file fs' p = read_file fs p" ..
    from reads[OF same[OF p t]] show "last_write_time fs' p = last_write_time fs p" ..
  next
    fix p f
    assume p: "p \<in> set (reported_originals out')" and f: "entries fs p = Some (Regular f)"
    from same[OF p plain[OF f]] leads[OF f] show "resolve fs' p = Some f" by simp
    from reads[OF same[OF p plain[OF f]]] show "read_file fs' p = read_file fs p" ..
    from reads[OF same[OF p plain[OF f]]] show "last_write_time fs' p = last_write_time fs p" ..
  qed
qed

theorem kept_file_untouched_witness:
  "sort_contract (std_sort example_impl) \<and> iteration_order (hash_order example_impl) \<and>
   distinct (map fst (regular_files example_tree)) \<and>
   reported_originals (snd (snd (main example_impl [''dedup'', ''r'', ''--delete'']
      (Found example_tree) example_fs))) = [''r/a.txt''] \<and>
   entries (fst (snd (main example_impl [''dedup'', ''r'', ''--delete'']
      (Found example_tree) example_fs))) ''r/a.txt'' = entries example_fs ''r/a.txt'' \<and>
   read_file (fst (snd (main example_impl [''dedup'', ''r'', ''--delete'']
      (Found example_tree) example_fs))) ''r/a.txt'' = Inr ''hello'' \<and>
   entries (fst (snd (main example_impl [''dedup'', ''r'', ''--delete'']
      (Found example_tree) example_fs))) ''r/b.txt'' = None"
proof -
  have 1: "sort_contract (std_sort example_impl)"
    by (simp add: example_impl_def stable_sort_contract)
  have 2: "iteration_order (hash_order example_impl)"
    by (simp add: example_impl_def iteration_order_rev)
  have 3: "distinct (map fst (regular_files example_tree))" by (simp add: example_tree_def)
  obtain x fs' out' where m: "main example_impl [''dedup'', ''r'', ''--delete'']
      (Found example_tree) example_fs = (x, fs', out')" using prod_cases3 by blast
  have o: "reported_originals out' = [''r/a.txt'']" and b: "entries fs' ''r/b.txt'' = None"
    using m by (auto simp: example_defs run_defs)
  have f: "entries example_fs ''r/a.txt''
             = Some (Regular \<lparr>content = Some ''hello'', last_write = Some 10\<rparr>)"
    and r: "read_file example_fs ''r/a.txt'' = Inr ''hello''"
    by (simp_all add: example_defs read_file_def resolve_def)
  from kept_file_untouched[OF 1 2 3 m] o f r
  have "entries fs' ''r/a.txt'' = entries example_fs ''r/a.txt'' \<and>
        read_file fs' ''r/a.txt'' = Inr ''hello''" by simp
  with 1 2 3 m o b show ?thesis by simp
qed

text \<open>
  C6 as stated fails: \<open>s.txt\<close> is a symbolic link to \<open>t.txt\<close>. Both are catalogued as
  regular files of the same size and content, \<open>s.txt\<close> first; their modification times
  are one, so \<open>s.txt\<close> is kept and \<open>t.txt\<close> is deleted. The file that was kept is
  gone: \<open>s.txt\<close> could be read before the run and cannot be read after it.
\<close>

theorem symbolic_link_counterexample:
  "main example_impl [''dedup'', ''r'', ''--delete''] (Found link_tree) link_fs =
     (Exit 0, link_fs\<lparr>entries := (entries link_fs)(''r/t.txt'' := None)\<rparr>,
      [ScanningDirectory ''r'', FoundFiles 2, LookingForDuplicates, FoundGroups 1,
       DuplicateGroup 2, HashLine ''5_99162322'', Original ''r/s.txt'', Duplicate ''r/t.txt'',
       Deleted ''r/t.txt'']) \<and>
   read_file link_fs ''r/s.txt'' = Inr ''hello'' \<and>
   read_file (link_fs\<lparr>entries := (entries link_fs)(''r/t.txt'' := None)\<rparr>) ''r/s.txt''
     = Inl (runtime_error ''Cannot open file: r/s.txt'') \<and>
   last_write_time link_fs ''r/s.txt'' = Inr 10 \<and>
   last_write_time (link_fs\<lparr>entries := (entries link_fs)(''r/t.txt'' := None)\<rparr>) ''r/s.txt''
     = Inl (filesystem_error ''last_write_time'' [''r/s.txt''])"
  by (simp add: example_defs run_defs)
text \<open>
  C7. In hard-link mode a superseded file whose removal is refused is left as it is. One
  that can be removed is removed first; when the creation of the link then fails, the
  path is left without an entry and the line \<open>Hardlink failed\<close> is written, to
  \<open>std::cerr\<close>, in place of \<open>Created hardlink\<close>; when it succeeds the path is a second
  name of what the original is. Whatever happens to one file, every other superseded
  file of the group is treated in the same way, in the order of the sort: the loop over
  the files makes of each path what \<open>hardlink_result\<close> says and writes its line after
  the line \<open>Duplicate\<close>. Whether the loop over the groups goes on depends on the sort
  alone: no exception but that of a modification time leaves \<open>handle_duplicates\<close>, and
  when every modification time can be read, and no member is a symbolic link that leads
  to another member, every group is announced and every superseded file of every group
  is treated, failures of the removal or of the link included.
\<close>

theorem hardlink_removes_then_links:
  "(remove_denied fs p \<longrightarrow>
      process_duplicate ''--hardlink'' original p (fs, out) =
        (fs, out @ [Duplicate p, HardlinkFailed (filesystem_error ''remove'' [p])])) \<and>
   (\<not> remove_denied fs p \<longrightarrow>
      (entries fs original = None \<or> original = p \<or> link_denied fs p \<longrightarrow>
         process_duplicate ''--hardlink'' original p (fs, out) =
           (fs\<lparr>entries := (entries fs)(p := None)\<rparr>,
            out @ [Duplicate p,
                   HardlinkFailed (filesystem_error ''create_hard_link'' [original, p])])) \<and>
      (\<forall>f. entries fs original = Some f \<and> original \<noteq> p \<and> \<not> link_denied fs p \<longrightarrow>
         process_duplicate ''--hardlink'' original p (fs, out) =
           (fs\<lparr>entries := (entries fs)(p \<mapsto> f)\<rparr>, out @ [Duplicate p, CreatedHardlink p]))) \<and>
   ((\<forall>e. to_cerr (HardlinkFailed e)) \<and> \<not> to_cerr (CreatedHardlink p)) \<and>
   (\<forall>qs. \<exists>fs' new. process_duplicates ''--hardlink'' original (p # qs) (fs, out) = (fs', out @ new) \<and>
      reported_duplicates new = p # qs) \<and>
   (original \<notin> set ps \<longrightarrow>
      (\<exists>fs'. process_duplicates ''--hardlink'' original ps (fs, out) =
                (fs', out @ concat (map (\<lambda>q. [Duplicate q, snd (hardlink_result fs original q)]) ps)) \<and>
              (\<forall>q \<in> set ps. entries fs' q = fst (hardlink_result fs original q)) \<and>
              (\<forall>q. q \<notin> set ps \<longrightarrow> entries fs' q = entries fs q))) \<and>
   (\<forall>h files.
      fst (handle_group impl ''--hardlink'' (h, files) (fs, out)) = None \<longleftrightarrow>
        (\<exists>orig rest. sort_by_last_write_time impl fs (map path files) = Inr (orig # rest))) \<and>
   (sort_contract (std_sort impl) \<and> iteration_order (hash_order impl) \<and>
    distinct (map fst duplicates) \<and> distinct (group_paths duplicates) \<and>
    (\<forall>g \<in> set duplicates. snd g \<noteq> []) \<and> independent_members fs (group_paths duplicates) \<longrightarrow>
      (\<exists>fs' new.
         handle_duplicates impl duplicates ''--hardlink'' (fs, out) = (None, fs', out @ new) \<and>
         (\<forall>q. q \<notin> set (group_paths duplicates) \<longrightarrow> entries fs' q = entries fs q) \<and>
         (\<forall>g \<in> set duplicates. \<exists>kept rest.
            mset (kept # rest) = mset (map path (snd g)) \<and>
            sublist (hardlink_report fs (fst g) (length (snd g)) kept rest) new \<and>
            entries fs' kept = entries fs kept \<and>
            (\<forall>q \<in> set rest. entries fs' q = fst (hardlink_result fs kept q))))) \<and>
   (sort_contract (std_sort impl) \<and> (\<forall>g \<in> set duplicates. snd g \<noteq> []) \<longrightarrow>
      (\<forall>e. fst (handle_duplicates impl duplicates ''--hardlink'' (fs, out)) = Some e \<longrightarrow>
           (\<exists>q. e = filesystem_error ''last_write_time'' [q])))"
proof -
  have refused: "remove_denied fs p \<longrightarrow>
      process_duplicate ''--hardlink'' original p (fs, out) =
        (fs, out @ [Duplicate p, HardlinkFailed (filesystem_error ''remove'' [p])])"
    by (simp add: process_duplicate_def fs_remove_def)
  have removed: "\<not> remove_denied fs p \<longrightarrow>
      (entries fs original = None \<or> original = p \<or> link_denied fs p \<longrightarrow>
         process_duplicate ''--hardlink'' original p (fs, out) =
           (fs\<lparr>entries := (entries fs)(p := None)\<rparr>,
            out @ [Duplicate p,
                   HardlinkFailed (filesystem_error ''create_hard_link'' [original, p])])) \<and>
      (\<forall>f. entries fs original = Some f \<and> original \<noteq> p \<and> \<not> link_denied fs p \<longrightarrow>
         process_duplicate ''--hardlink'' original p (fs, out) =
           (fs\<lparr>entries := (entries fs)(p \<mapsto> f)\<rparr>, out @ [Duplicate p, CreatedHardlink p]))"
    by (auto simp: process_duplicate_def fs_remove_def create_hard_link_def split: option.splits)
  have lines: "(\<forall>e. to_cerr (HardlinkFailed e)) \<and> \<not> to_cerr (CreatedHardlink p)" by simp
  have reached: "\<forall>qs. \<exists>fs' new.
      process_duplicates ''--hardlink'' original (p # qs) (fs, out) = (fs', out @ new) \<and>
      reported_duplicates new = p # qs"
  proof
    fix qs
    show "\<exists>fs' new. process_duplicates ''--hardlink'' original (p # qs) (fs, out) = (fs', out @ new) \<and>
      reported_duplicates new = p # qs"
      using process_duplicates_frame[of "''--hardlink''" original "p # qs" fs out] by blast
  qed
  have files: "original \<notin> set ps \<longrightarrow>
      (\<exists>fs'. process_duplicates ''--hardlink'' original ps (fs, out) =
                (fs', out @ concat (map (\<lambda>q. [Duplicate q, snd (hardlink_result fs original q)]) ps)) \<and>
              (\<forall>q \<in> set ps. entries fs' q = fst (hardlink_result fs original q)) \<and>
              (\<forall>q. q \<notin> set ps \<longrightarrow> entries fs' q = entries fs q))"
  proof
    assume "original \<notin> set ps"
    from process_duplicates_hardlink[OF this, of fs out]
    show "\<exists>fs'. process_duplicates ''--hardlink'' original ps (fs, out) =
                (fs', out @ concat (map (\<lambda>q. [Duplicate q, snd (hardlink_result fs original q)]) ps)) \<and>
              (\<forall>q \<in> set ps. entries fs' q = fst (hardlink_result fs original q)) \<and>
              (\<forall>q. q \<notin> set ps \<longrightarrow> entries fs' q = entries fs q)"
      by blast
  qed
  have sorted: "\<forall>h files.
      fst (handle_group impl ''--hardlink'' (h, files) (fs, out)) = None \<longleftrightarrow>
        (\<exists>orig rest. sort_by_last_write_time impl fs (map path files) = Inr (orig # rest))"
    by (intro allI) (rule handle_group_continues)
  have groups: "sort_contract (std_sort impl) \<and> iteration_order (hash_order impl) \<and>
    distinct (map fst duplicates) \<and> distinct (group_paths duplicates) \<and>
    (\<forall>g \<in> set duplicates. snd g \<noteq> []) \<and> independent_members fs (group_paths duplicates) \<longrightarrow>
      (\<exists>fs' new.
         handle_duplicates impl duplicates ''--hardlink'' (fs, out) = (None, fs', out @ new) \<and>
         (\<forall>q. q \<notin> set (group_paths duplicates) \<longrightarrow> entries fs' q = entries fs q) \<and>
         (\<forall>g \<in> set duplicates. \<exists>kept rest.
            mset (kept # rest) = mset (map path (snd g)) \<and>
            sublist (hardlink_report fs (fst g) (length (snd g)) kept rest) new \<and>
            entries fs' kept = entries fs kept \<and>
            (\<forall>q \<in> set rest. entries fs' q = fst (hardlink_result fs kept q))))"
  proof
    assume a: "sort_contract (std_sort impl) \<and> iteration_order (hash_order impl) \<and>
      distinct (map fst duplicates) \<and> distinct (group_paths duplicates) \<and>
      (\<forall>g \<in> set duplicates. snd g \<noteq> []) \<and> independent_members fs (group_paths duplicates)"
    then have 1: "sort_contract (std_sort impl)" and 2: "iteration_order (hash_order impl)"
      and 3: "distinct (map fst duplicates)" and 4: "distinct (group_paths duplicates)"
      and 5: "\<forall>g \<in> set duplicates. snd g \<noteq> []"
      and 6: "independent_members fs (group_paths duplicates)"
      by simp_all
    from handle_duplicates_hardlink[OF 1 2 3 4 5 6, of out] obtain fs' new where
      r: "handle_duplicates impl duplicates ''--hardlink'' (fs, out) = (None, fs', out @ new)"
      and f: "frame (group_paths duplicates) fs fs'"
      and g: "\<forall>g \<in> set duplicates. \<exists>kept rest.
            mset (kept # rest) = mset (map path (snd g)) \<and>
            sublist (hardlink_report fs (fst g) (length (snd g)) kept rest) new \<and>
            entries fs' kept = entries fs kept \<and>
            (\<forall>q \<in> set rest. entries fs' q = fst (hardlink_result fs kept q))"
      by blast
    from f have "\<forall>q. q \<notin> set (group_paths duplicates) \<longrightarrow> entries fs' q = entries fs q"
      by (simp add: frame_def)
    with r g show "\<exists>fs' new.
         handle_duplicates impl duplicates ''--hardlink'' (fs, out) = (None, fs', out @ new) \<and>
         (\<forall>q. q \<notin> set (group_paths duplicates) \<longrightarrow> entries fs' q = entries fs q) \<and>
         (\<forall>g \<in> set duplicates. \<exists>kept rest.
            mset (kept # rest) = mset (map path (snd g)) \<and>
            sublist (hardlink_report fs (fst g) (length (snd g)) kept rest) new \<and>
            entries fs' kept = entries fs kept \<and>
            (\<forall>q \<in> set rest. entries fs' q = fst (hardlink_result fs kept q)))"
      by blast
  qed
  have ended: "sort_contract (std_sort impl) \<and> (\<forall>g \<in> set duplicates. snd g \<noteq> []) \<longrightarrow>
      (\<forall>e. fst (handle_duplicates impl duplicates ''--hardlink'' (fs, out)) = Some e \<longrightarrow>
           (\<exists>q. e = filesystem_error ''last_write_time'' [q]))"
  proof (intro impI allI)
    fix e
    assume a: "sort_contract (std_sort impl) \<and> (\<forall>g \<in> set duplicates. snd g \<noteq> [])"
      and e: "fst (handle_duplicates impl duplicates ''--hardlink'' (fs, out)) = Some e"
    from a have 1: "sort_contract (std_sort impl)" and 2: "\<forall>g \<in> set duplicates. snd g \<noteq> []"
      by simp_all
    from handle_duplicates_raises[OF 1 2 e]
    show "\<exists>q. e = filesystem_error ''last_write_time'' [q]" .
  qed
  show ?thesis
    apply (rule conjI, rule refused)
    apply (rule conjI, rule removed)
    apply (rule conjI, rule lines)
    apply (rule conjI, rule reached)
    apply (rule conjI, rule files)
    apply (rule conjI, rule sorted)
    apply (rule conjI, rule groups)
    apply (rule ended)
    done
qed

theorem hardlink_removes_then_links_witness:
  "sort_contract (std_sort example_impl) \<and> iteration_order (hash_order example_impl) \<and>
   distinct (map fst two_groups) \<and> distinct (group_paths two_groups) \<and>
   independent_members partial_fs (group_paths two_groups) \<and>
   \<not> remove_denied partial_fs ''r/b.txt'' \<and> link_denied partial_fs ''r/b.txt'' \<and>
   process_duplicate ''--hardlink'' ''r/a.txt'' ''r/b.txt'' (partial_fs, []) =
     (partial_fs\<lparr>entries := (entries partial_fs)(''r/b.txt'' := None)\<rparr>,
      [Duplicate ''r/b.txt'',
       HardlinkFailed (filesystem_error ''create_hard_link'' [''r/a.txt'', ''r/b.txt''])]) \<and>
   fst (handle_duplicates example_impl two_groups ''--hardlink'' (partial_fs, [])) = None \<and>
   snd (snd (handle_duplicates example_impl two_groups ''--hardlink'' (partial_fs, []))) =
     [DuplicateGroup 2, HashLine ''5_99162322'', Original ''r/a.txt'', Duplicate ''r/b.txt'',
      HardlinkFailed (filesystem_error ''create_hard_link'' [''r/a.txt'', ''r/b.txt'']),
      DuplicateGroup 2, HashLine ''6_3074032015'', Original ''r/sub/d.txt'',
      Duplicate ''r/sub/e.txt'', CreatedHardlink ''r/sub/e.txt''] \<and>
   entries (fst (snd (handle_duplicates example_impl two_groups ''--hardlink'' (partial_fs, []))))
     ''r/b.txt'' = None \<and>
   entries (fst (snd (handle_duplicates example_impl two_groups ''--hardlink'' (partial_fs, []))))
     ''r/sub/e.txt'' = entries partial_fs ''r/sub/d.txt'' \<and>
   entries (fst (snd (handle_duplicates example_impl two_groups ''--hardlink'' (partial_fs, []))))
     ''r/c.txt'' = entries partial_fs ''r/c.txt''"
proof -
  have 1: "sort_contract (std_sort example_impl)"
    by (simp add: example_impl_def stable_sort_contract)
  have 2: "iteration_order (hash_order example_impl)"
    by (simp add: example_impl_def iteration_order_rev)
  have 3: "distinct (map fst two_groups)" and 4: "distinct (group_paths two_groups)"
    and 5: "\<forall>g \<in> set two_groups. snd g \<noteq> []"
    by (simp_all add: two_groups_def example_group_def group_paths_def)
  have 6: "independent_members partial_fs (group_paths two_groups)"
  proof -
    have "first_failure partial_fs (group_paths two_groups) = None"
      by (simp add: group_paths_def last_write_time_def resolve_def example_defs)
    moreover have "leads_through partial_fs q = [q]" if "q \<in> set (group_paths two_groups)" for q
    proof -
      from that have "\<exists>f. entries partial_fs q = Some (Regular f)"
        by (auto simp: group_paths_def example_defs)
      then show ?thesis by (auto simp: leads_through_regular)
    qed
    ultimately show ?thesis by (simp add: independent_members_def)
  qed
  have 7: "\<not> remove_denied partial_fs ''r/b.txt''" and 8: "link_denied partial_fs ''r/b.txt''"
    by (simp_all add: example_defs)
  have outside: "''r/c.txt'' \<notin> set (group_paths two_groups)"
    by (simp add: two_groups_def example_group_def group_paths_def)
  have run: "snd (snd (handle_duplicates example_impl two_groups ''--hardlink'' (partial_fs, []))) =
     [DuplicateGroup 2, HashLine ''5_99162322'', Original ''r/a.txt'', Duplicate ''r/b.txt'',
      HardlinkFailed (filesystem_error ''create_hard_link'' [''r/a.txt'', ''r/b.txt'']),
      DuplicateGroup 2, HashLine ''6_3074032015'', Original ''r/sub/d.txt'',
      Duplicate ''r/sub/e.txt'', CreatedHardlink ''r/sub/e.txt'']"
    and b: "entries (fst (snd (handle_duplicates example_impl two_groups ''--hardlink''
              (partial_fs, [])))) ''r/b.txt'' = None"
    and e: "entries (fst (snd (handle_duplicates example_impl two_groups ''--hardlink''
              (partial_fs, [])))) ''r/sub/e.txt'' = entries partial_fs ''r/sub/d.txt''"
    by (simp_all add: example_defs run_defs)
  note inst = hardlink_removes_then_links[of partial_fs "''r/b.txt''" "''r/a.txt''" "[]" "[]"
      example_impl two_groups]
  from inst 7 8 have step:
    "process_duplicate ''--hardlink'' ''r/a.txt'' ''r/b.txt'' (partial_fs, []) =
     (partial_fs\<lparr>entries := (entries partial_fs)(''r/b.txt'' := None)\<rparr>,
      [Duplicate ''r/b.txt'',
       HardlinkFailed (filesystem_error ''create_hard_link'' [''r/a.txt'', ''r/b.txt''])])"
    by simp
  from inst 1 2 3 4 5 6 obtain fs' new where
    r: "handle_duplicates example_impl two_groups ''--hardlink'' (partial_fs, []) = (None, fs', [] @ new)"
    and o: "\<forall>q. q \<notin> set (group_paths two_groups) \<longrightarrow> entries fs' q = entries partial_fs q"
    by blast
  from r have none: "fst (handle_duplicates example_impl two_groups ''--hardlink'' (partial_fs, [])) = None"
    by simp
  from r o outside have c: "entries (fst (snd (handle_duplicates example_impl two_groups
      ''--hardlink'' (partial_fs, [])))) ''r/c.txt'' = entries partial_fs ''r/c.txt''"
    by simp
  from 1 2 3 4 6 7 8 step none run b e c show ?thesis by simp
qed



text \<open>
  C9 (as the code has it). On one filesystem, with the sizes of the catalogue being the
  lengths of the contents, two runs of \<open>find_duplicates\<close> emit the same set of groups,
  each with the same digest and the same members, whatever the order in which the files
  were found and whatever the orders in which the two maps are iterated.
\<close>

theorem same_content_same_groups:
  assumes "iteration_order (size_order impl1)" and "iteration_order (hash_order impl1)"
    and "iteration_order (size_order impl2)" and "iteration_order (hash_order impl2)"
    and "std_hash impl1 = std_hash impl2"
    and "sizes_match fs files1" and "mset files1 = mset files2"
  shows "duplicate_set (fst (find_duplicates impl1 fs files1 out1))
           = duplicate_set (fst (find_duplicates impl2 fs files2 out2))"
proof
  show "duplicate_set (fst (find_duplicates impl1 fs files1 out1))
           \<subseteq> duplicate_set (fst (find_duplicates impl2 fs files2 out2))"
    using assms by (rule duplicate_set_subset)
  have "sizes_match fs files2" using sizes_match_mset[OF assms(7), of fs] assms(6) by simp
  then show "duplicate_set (fst (find_duplicates impl2 fs files2 out2))
           \<subseteq> duplicate_set (fst (find_duplicates impl1 fs files1 out1))"
    using assms(1-5,7) by (intro duplicate_set_subset) simp_all
qed

theorem same_content_same_groups_witness:
  "iteration_order (size_order example_impl) \<and> iteration_order (hash_order example_impl) \<and>
   iteration_order (size_order gnu_impl) \<and> iteration_order (hash_order gnu_impl) \<and>
   std_hash example_impl = std_hash gnu_impl \<and>
   sizes_match example_fs example_files \<and> mset example_files = mset (rev example_files) \<and>
   duplicate_set (fst (find_duplicates gnu_impl example_fs (rev example_files) []))
     = {(fst example_group, mset (snd example_group))}"
proof -
  have 1: "iteration_order (size_order example_impl)" and 2: "iteration_order (hash_order example_impl)"
    by (simp_all add: example_impl_def iteration_order_rev)
  have 3: "iteration_order (size_order gnu_impl)" and 4: "iteration_order (hash_order gnu_impl)"
    by (simp_all add: gnu_impl_def iteration_order_id)
  have 5: "std_hash example_impl = std_hash gnu_impl"
    by (simp add: example_impl_def gnu_impl_def)
  have 6: "sizes_match example_fs example_files"
    by (simp add: sizes_match_def example_files_def example_fs_def read_file_def resolve_def)
  have 7: "mset example_files = mset (rev example_files)" by simp
  from same_content_same_groups[OF 1 2 3 4 5 6 7, of "[]" "[]"]
  have "duplicate_set (fst (find_duplicates gnu_impl example_fs (rev example_files) []))
      = duplicate_set [example_group]"
    by (simp add: example_duplicates)
  with 1 2 3 4 5 6 7 show ?thesis by (simp add: duplicate_set_def)
qed


text \<open>
  C9 as stated fails when a catalogued size is not the length of the content read. The
  digest is made of the length of what is read, the buckets are made of the catalogued
  sizes, and \<open>duplicates[hash] = files\<close> overwrites the group that another bucket stored
  under the same digest: with four files of the same five bytes, two catalogued with
  size 5 and two with size 7, the one group that remains is that of the bucket visited
  last. With the same implementation and the same filesystem, the catalogue in the
  opposite order gives the other group.
\<close>

theorem catalogue_order_counterexample:
  "fst (find_duplicates example_impl mismatch_fs mismatch_files []) =
     [(''5_99162322'',
       [\<lparr>path = ''r/a.txt'', size' = 5, hash = ''5_99162322''\<rparr>,
        \<lparr>path = ''r/b.txt'', size' = 5, hash = ''5_99162322''\<rparr>])] \<and>
   fst (find_duplicates example_impl mismatch_fs (rev mismatch_files) []) =
     [(''5_99162322'',
       [\<lparr>path = ''r/d.txt'', size' = 7, hash = ''5_99162322''\<rparr>,
        \<lparr>path = ''r/c.txt'', size' = 7, hash = ''5_99162322''\<rparr>])] \<and>
   duplicate_set (fst (find_duplicates example_impl mismatch_fs mismatch_files []))
     \<noteq> duplicate_set (fst (find_duplicates example_impl mismatch_fs (rev mismatch_files) []))"
proof -
  have 1: "fst (find_duplicates example_impl mismatch_fs mismatch_files []) =
     [(''5_99162322'',
       [\<lparr>path = ''r/a.txt'', size' = 5, hash = ''5_99162322''\<rparr>,
        \<lparr>path = ''r/b.txt'', size' = 5, hash = ''5_99162322''\<rparr>])]"
    by (simp add: example_defs run_defs)
  have 2: "fst (find_duplicates example_impl mismatch_fs (rev mismatch_files) []) =
     [(''5_99162322'',
       [\<lparr>path = ''r/d.txt'', size' = 7, hash = ''5_99162322''\<rparr>,
        \<lparr>path = ''r/c.txt'', size' = 7, hash = ''5_99162322''\<rparr>])]"
    by (simp add: example_defs run_defs)
  have "\<lparr>path = ''r/a.txt'', size' = 5, hash = ''5_99162322''\<rparr>
          \<in># mset [\<lparr>path = ''r/a.txt'', size' = 5, hash = ''5_99162322''\<rparr>,
                   \<lparr>path = ''r/b.txt'', size' = 5, hash = ''5_99162322''\<rparr>]" by simp
  moreover have "\<not> \<lparr>path = ''r/a.txt'', size' = 5, hash = ''5_99162322''\<rparr>
          \<in># mset [\<lparr>path = ''r/d.txt'', size' = 7, hash = ''5_99162322''\<rparr>,
                   \<lparr>path = ''r/c.txt'', size' = 7, hash = ''5_99162322''\<rparr>]" by simp
  ultimately have "mset [\<lparr>path = ''r/a.txt'', size' = 5, hash = ''5_99162322''\<rparr>,
                   \<lparr>path = ''r/b.txt'', size' = 5, hash = ''5_99162322''\<rparr>]
      \<noteq> mset [\<lparr>path = ''r/d.txt'', size' = 7, hash = ''5_99162322''\<rparr>,
               \<lparr>path = ''r/c.txt'', size' = 7, hash = ''5_99162322''\<rparr>]"
    by metis
  then have "duplicate_set (fst (find_duplicates example_impl mismatch_fs mismatch_files []))
     \<noteq> duplicate_set (fst (find_duplicates example_impl mismatch_fs (rev mismatch_files) []))"
    unfolding 1 2 by (simp add: duplicate_set_def)
  with 1 2 show ?thesis by simp
qed
text \<open>
  C10. With any action argument other than \<open>--delete\<close> and \<open>--hardlink\<close> the run is
  the run without an action argument, that is the listing run, with the same output and
  exit status, and it leaves the filesystem as it was.
\<close>

theorem unrecognised_action_lists_only:
  assumes "action \<noteq> ''--delete''" "action \<noteq> ''--hardlink''"
  shows "main impl (prog # directory # action # extra) root fs = main impl [prog, directory] root fs \<and>
     fst (snd (main impl (prog # directory # action # extra) root fs)) = fs"
proof -
  have 1: "main impl (prog # directory # action # extra) root fs = main impl [prog, directory] root fs"
    by (simp add: main_def main_try_def handle_duplicates_def handle_groups_list[OF assms]
        cong del: prod.case_cong_weak option.case_cong_weak root_status.case_cong_weak if_weak_cong)
  obtain x fs' out' where m: "main impl (prog # directory # action # extra) root fs = (x, fs', out')"
    using prod_cases3 by blast
  from main_fs_cases[OF m] have "fs' = fs"
    using handle_groups_list_fs[OF assms]
    by (auto simp: handle_duplicates_def dest!: main_try_fs_cases)
  with m 1 show ?thesis by simp
qed

theorem unrecognised_action_lists_only_witness:
  "''--remove'' \<noteq> ''--delete'' \<and> ''--remove'' \<noteq> ''--hardlink'' \<and>
   main example_impl [''dedup'', ''r'', ''--remove''] (Found example_tree) example_fs
     = main example_impl [''dedup'', ''r''] (Found example_tree) example_fs \<and>
   fst (snd (main example_impl [''dedup'', ''r'', ''--remove''] (Found example_tree) example_fs))
     = example_fs"
proof -
  have a: "''--remove'' \<noteq> ''--delete''" and b: "''--remove'' \<noteq> ''--hardlink''" by simp_all
  from unrecognised_action_lists_only[OF a b, of example_impl "''dedup''" "''r''" "[]"
      "Found example_tree" example_fs] a b
  show ?thesis by blast
qed

end
